theory Spec2Isabelle
  imports Main "HOL-Library.Word" "HOL-Library.Signed_Division"
begin

section \<open>The calendar engine of the PCF85263 library\<close>

text \<open>
  The classes \<open>DateTime\<close> and \<open>TimeSpan\<close> of \<open>PCF85263.cpp\<close> and
  \<open>PCF85263.h\<close>, function by function. The fixed-width integers of the source are
  words of the same width: \<open>uint8_t\<close> and \<open>int8_t\<close> are \<open>8 word\<close>,
  \<open>uint16_t\<close> and \<open>int16_t\<close> are \<open>16 word\<close>, \<open>uint32_t\<close> and
  \<open>int32_t\<close> are \<open>32 word\<close>, read with \<open>unat\<close> where the source type is
  unsigned and with \<open>sint\<close> where it is signed. Every truncation and wrap-around of
  the source is then one of the model.
\<close>

subsection \<open>Constants and the month table\<close>

text \<open>
  \<open>daysInMonth\<close> holds eleven bytes in program memory, January to November.
  \<open>date2days\<close> reads it at \<open>i - 1\<close> for every \<open>i\<close> from 1 up to the month, so a
  month above 12 reads behind the table; \<open>toString\<close> reads \<open>month_names\<close> at
  \<open>3 * (m - 1)\<close>, which lies outside that table for a month outside 1 to 12. The
  source does not fix what lies there. It is the parameter \<open>pgm\<close> of the functions
  that read a table: the bytes that follow \<open>daysInMonth\<close>, counted from its end,
  and the bytes around \<open>month_names\<close>, by their offset from its start.
\<close>

record flash =
  past_daysInMonth :: "nat \<Rightarrow> 8 word"
  around_month_names :: "int \<Rightarrow> char"

definition SECONDS_FROM_1970_TO_2000 :: "32 word" where
  "SECONDS_FROM_1970_TO_2000 = 946684800"

definition daysInMonth :: "8 word list" where
  "daysInMonth = [31, 28, 31, 30, 31, 30, 31, 31, 30, 31, 30]"

definition pgm_read_byte_daysInMonth :: "flash \<Rightarrow> nat \<Rightarrow> 8 word" where
  "pgm_read_byte_daysInMonth pgm k =
     (if k < length daysInMonth then daysInMonth ! k
      else past_daysInMonth pgm (k - length daysInMonth))"

subsection \<open>DateTime\<close>

text \<open>The six protected fields \<open>yOff\<close>, \<open>m\<close>, \<open>d\<close>, \<open>hh\<close>, \<open>mm\<close>, \<open>ss\<close>.\<close>

record DateTime =
  dt_yOff :: "8 word"
  dt_m :: "8 word"
  dt_d :: "8 word"
  dt_hh :: "8 word"
  dt_mm :: "8 word"
  dt_ss :: "8 word"

text \<open>
  \<open>date2days\<close>: the loop \<open>for (i = 1; i < m; ++i) days += daysInMonth[i - 1]\<close> is
  the fold over \<open>[1..<m]\<close>; \<open>days\<close> is a \<open>uint16_t\<close> and wraps. In the returned
  sum \<open>y + 3\<close> cannot wrap (after the reduction \<open>y\<close> is at most 63535), so the sum
  taken in \<open>int\<close> and cut to sixteen bits is the sum of sixteen-bit words.
\<close>

definition date2days :: "flash \<Rightarrow> 16 word \<Rightarrow> 8 word \<Rightarrow> 8 word \<Rightarrow> 16 word" where
  "date2days pgm y m d =
     (let y1 = (if 2000 \<le> y then y - 2000 else y);
          days0 = (ucast d :: 16 word);
          days1 = fold (\<lambda>i days. days + ucast (pgm_read_byte_daysInMonth pgm (i - 1)))
                    [1..<unat m] days0;
          days2 = (if 2 < m \<and> y1 mod 4 = 0 then days1 + 1 else days1)
      in days2 + 365 * y1 + (y1 + 3) div 4 - 1)"

definition time2ulong :: "16 word \<Rightarrow> 8 word \<Rightarrow> 8 word \<Rightarrow> 8 word \<Rightarrow> 32 word" where
  "time2ulong days h m s =
     (((ucast days :: 32 word) * 24 + ucast h) * 60 + ucast m) * 60 + ucast s"

text \<open>
  The two loops of \<open>DateTime::DateTime(uint32_t)\<close>. The first counts \<open>yOff\<close> up
  from 0 while a whole year fits into \<open>days\<close>; it returns \<open>yOff\<close>, the last
  \<open>leap\<close> and the remaining days. The second counts \<open>m\<close> up from 1 and stops at
  12 at the latest, so it reads the table at \<open>m - 1\<close> between 0 and 10 only.
\<close>

function year_loop :: "8 word \<Rightarrow> 16 word \<Rightarrow> 8 word \<times> 8 word \<times> 16 word" where
  "year_loop yOff days =
     (let leap = (if yOff mod 4 = 0 then 1 else 0 :: 8 word)
      in if days < 365 + ucast leap then (yOff, leap, days)
         else year_loop (yOff + 1) (days - (365 + ucast leap)))"
  by pat_completeness auto
termination
proof (relation "measure (\<lambda>(yOff, days). unat days)")
  show "wf (measure (\<lambda>(yOff, days). unat days))" by simp
next
  fix yOff :: "8 word" and days :: "16 word" and leap :: "8 word"
  assume l: "leap = (if yOff mod 4 = 0 then 1 else 0)" and n: "\<not> days < 365 + ucast leap"
  have "unat (365 + ucast leap :: 16 word) = 365 \<or> unat (365 + ucast leap :: 16 word) = 366"
    using l by (cases "yOff mod 4 = 0") simp_all
  moreover have "unat (365 + ucast leap :: 16 word) \<le> unat days"
    using n by (simp add: word_less_nat_alt)
  ultimately have "unat (days - (365 + ucast leap)) < unat days"
    by (auto simp: unat_sub word_le_nat_alt)
  then show "((yOff + 1, days - (365 + ucast leap)), (yOff, days))
               \<in> measure (\<lambda>(yOff, days). unat days)"
    by simp
qed

function month_loop :: "8 word \<Rightarrow> 8 word \<Rightarrow> 16 word \<Rightarrow> 8 word \<times> 16 word" where
  "month_loop leap m days =
     (if m < 12 then
        (let daysPerMonth0 = daysInMonth ! (unat m - 1);
             daysPerMonth = (if leap \<noteq> 0 \<and> m = 2 then daysPerMonth0 + 1 else daysPerMonth0)
         in if days < ucast daysPerMonth then (m, days)
            else month_loop leap (m + 1) (days - ucast daysPerMonth))
      else (m, days))"
  by pat_completeness auto
termination
proof (relation "measure (\<lambda>(leap, m, days). 12 - unat m)")
  show "wf (measure (\<lambda>(leap, m, days). 12 - unat m))" by simp
next
  fix leap m :: "8 word" and days :: "16 word" and x :: "8 word" and xa :: "8 word"
  assume "m < 12"
  then have "unat m < 12" by (simp add: word_less_nat_alt)
  then have "unat (m + 1) = unat m + 1" by (simp add: unat_word_ariths)
  with \<open>unat m < 12\<close>
  show "((leap, m + 1, days - ucast xa), (leap, m, days))
          \<in> measure (\<lambda>(leap, m, days). 12 - unat m)"
    by simp
qed

declare year_loop.simps [simp del] month_loop.simps [simp del]

definition DateTime_of_unixtime :: "32 word \<Rightarrow> DateTime" where
  "DateTime_of_unixtime t0 =
     (let t = t0 - SECONDS_FROM_1970_TO_2000;
          ss = (ucast (t mod 60) :: 8 word);
          t1 = t div 60;
          mm = (ucast (t1 mod 60) :: 8 word);
          t2 = t1 div 60;
          hh = (ucast (t2 mod 24) :: 8 word);
          days = (ucast (t2 div 24) :: 16 word);
          (yOff, leap, days') = year_loop 0 days;
          (m, days'') = month_loop leap 1 days'
      in \<lparr>dt_yOff = yOff, dt_m = m, dt_d = ucast (days'' + 1),
          dt_hh = hh, dt_mm = mm, dt_ss = ss\<rparr>)"

text \<open>
  \<open>DateTime(year, month, day, hour, min, sec)\<close>: the year is reduced by 2000 when
  it is at least 2000 and then cut to the eight bits of \<open>yOff\<close>; nothing is checked.
\<close>

definition DateTime_of_components ::
  "16 word \<Rightarrow> 8 word \<Rightarrow> 8 word \<Rightarrow> 8 word \<Rightarrow> 8 word \<Rightarrow> 8 word \<Rightarrow> DateTime" where
  "DateTime_of_components year month day hour minute sec =
     \<lparr>dt_yOff = ucast (if 2000 \<le> year then year - 2000 else year),
      dt_m = month, dt_d = day, dt_hh = hour, dt_mm = minute, dt_ss = sec\<rparr>"

definition year :: "DateTime \<Rightarrow> 16 word" where
  "year dt = 2000 + ucast (dt_yOff dt)"

definition month :: "DateTime \<Rightarrow> 8 word" where
  "month dt = dt_m dt"

definition day :: "DateTime \<Rightarrow> 8 word" where
  "day dt = dt_d dt"

definition hour :: "DateTime \<Rightarrow> 8 word" where
  "hour dt = dt_hh dt"

definition minute :: "DateTime \<Rightarrow> 8 word" where
  "minute dt = dt_mm dt"

definition second :: "DateTime \<Rightarrow> 8 word" where
  "second dt = dt_ss dt"

definition unixtime :: "flash \<Rightarrow> DateTime \<Rightarrow> 32 word" where
  "unixtime pgm dt =
     time2ulong (date2days pgm (ucast (dt_yOff dt)) (dt_m dt) (dt_d dt))
                (dt_hh dt) (dt_mm dt) (dt_ss dt)
       + SECONDS_FROM_1970_TO_2000"

text \<open>
  \<open>dayOfTheWeek\<close>: the \<open>uint16_t\<close> day count is promoted to \<open>int\<close> before 6
  is added, so with an \<open>int\<close> of 32 bits the sum does not wrap; the remainder is
  below 7 and fits the \<open>uint8_t\<close> returned. (Where \<open>int\<close> has 16 bits the sum
  is taken in \<open>unsigned int\<close> and wraps for a day count of 65530 or more.)
\<close>

definition dayOfTheWeek :: "flash \<Rightarrow> DateTime \<Rightarrow> 8 word" where
  "dayOfTheWeek pgm dt =
     (let day = date2days pgm (ucast (dt_yOff dt)) (dt_m dt) (dt_d dt)
      in of_nat ((unat day + 6) mod 7))"

definition isValid :: "flash \<Rightarrow> DateTime \<Rightarrow> bool" where
  "isValid pgm dt =
     (if 100 \<le> dt_yOff dt then False
      else (let other = DateTime_of_unixtime (unixtime pgm dt)
            in dt_yOff dt = dt_yOff other \<and> dt_m dt = dt_m other \<and> dt_d dt = dt_d other
             \<and> dt_hh dt = dt_hh other \<and> dt_mm dt = dt_mm other \<and> dt_ss dt = dt_ss other))"

text \<open>
  The comparison operators. \<open>operator<\<close> compares \<open>yOff + 2000U\<close> with
  \<open>right.year()\<close> and then the fields, each with the accessor of the right operand;
  \<open>operator>\<close> is \<open>right < *this\<close>.
\<close>

definition op_less :: "DateTime \<Rightarrow> DateTime \<Rightarrow> bool" where
  "op_less a b =
     (ucast (dt_yOff a) + 2000 < year b \<or>
      (ucast (dt_yOff a) + 2000 = year b \<and>
       (dt_m a < month b \<or>
        (dt_m a = month b \<and>
         (dt_d a < day b \<or>
          (dt_d a = day b \<and>
           (dt_hh a < hour b \<or>
            (dt_hh a = hour b \<and>
             (dt_mm a < minute b \<or>
              (dt_mm a = minute b \<and> dt_ss a < second b))))))))))"

definition op_greater :: "DateTime \<Rightarrow> DateTime \<Rightarrow> bool" where
  "op_greater a b = op_less b a"

definition op_eq :: "DateTime \<Rightarrow> DateTime \<Rightarrow> bool" where
  "op_eq a b =
     (year b = ucast (dt_yOff a) + 2000 \<and> month b = dt_m a \<and> day b = dt_d a
      \<and> hour b = dt_hh a \<and> minute b = dt_mm a \<and> second b = dt_ss a)"

subsection \<open>Text\<close>

text \<open>
  A C string is the list of its bytes; \<open>strlen\<close> counts up to the first NUL, and
  a list without one ends at its terminator. \<open>conv2d\<close> reads two characters at
  \<open>p\<close> and \<open>p + 1\<close>: the first counts only when it is a digit, the second is
  taken as it is, and the result is cut to eight bits. The ISO 8601 constructor copies
  \<open>min(strlen(ref), strlen(iso8601dateTime))\<close> bytes over the 19 characters of
  \<open>ref\<close> and reads the six fields at offsets 2, 5, 8, 11, 14 and 17.
\<close>

definition NUL :: char where
  "NUL = CHR 0x00"

definition strlen :: "string \<Rightarrow> nat" where
  "strlen s = length (takeWhile (\<lambda>c. c \<noteq> NUL) s)"

definition memcpy :: "string \<Rightarrow> string \<Rightarrow> nat \<Rightarrow> string" where
  "memcpy dst src n = take n src @ drop n dst"

definition conv2d :: "string \<Rightarrow> nat \<Rightarrow> 8 word" where
  "conv2d p k =
     (let v = (if (48 :: nat) \<le> of_char (p ! k) \<and> of_char (p ! k) \<le> (57 :: nat)
               then of_char (p ! k) - 48 else 0 :: 8 word)
      in 10 * v + of_char (p ! (k + 1)) - 48)"

definition DateTime_of_iso8601 :: "string \<Rightarrow> DateTime" where
  "DateTime_of_iso8601 iso8601dateTime =
     (let ref0 = ''2000-01-01T00:00:00'';
          ref = memcpy ref0 iso8601dateTime (min (strlen ref0) (strlen iso8601dateTime))
      in \<lparr>dt_yOff = conv2d ref 2, dt_m = conv2d ref 5, dt_d = conv2d ref 8,
          dt_hh = conv2d ref 11, dt_mm = conv2d ref 14, dt_ss = conv2d ref 17\<rparr>)"


text \<open>
  \<open>twelveHour()\<close>, the hour on a twelve-hour clock.
\<close>

definition twelveHour :: "DateTime \<Rightarrow> 8 word" where
  "twelveHour dt =
     (if dt_hh dt = 0 \<or> dt_hh dt = 12 then 12
      else if 12 < dt_hh dt then dt_hh dt - 12
      else dt_hh dt)"

text \<open>
  \<open>toString\<close> overwrites its buffer in place. The buffer is the list of its bytes
  up to the terminator of the format string: \<open>char_at\<close> reads it, the terminator at
  the index of its length included. Before the loop \<open>strstr\<close> looks for \<open>ap\<close>
  and \<open>AP\<close> and the hour is converted. The body of the loop is the sequence of its
  seven \<open>if\<close> statements, each reading what the one before has written. The loop
  condition \<open>i < strlen(buffer) - 1\<close> is taken again before every round; for a
  string of length 0 the bound wraps around to the largest \<open>size_t\<close> and the scan
  leaves the string: that outcome is \<open>None\<close>. A digit is \<open>'0' + v\<close>, cut to a
  byte.
\<close>

primrec strstr_found :: "string \<Rightarrow> string \<Rightarrow> bool" where
  "strstr_found [] t = (t = [])"
| "strstr_found (c # cs) t = (take (length t) (c # cs) = t \<or> strstr_found cs t)"

definition day_names :: string where
  "day_names = ''SunMonTueWedThuFriSat''"

definition month_names :: string where
  "month_names = ''JanFebMarAprMayJunJulAugSepOctNovDec''"

definition pgm_read_byte_month_names :: "flash \<Rightarrow> int \<Rightarrow> char" where
  "pgm_read_byte_month_names pgm k =
     (if 0 \<le> k \<and> k < int (length month_names) then month_names ! nat k
      else if k = int (length month_names) then NUL
      else around_month_names pgm k)"

definition char_at :: "string \<Rightarrow> nat \<Rightarrow> char" where
  "char_at buffer k = (if k < length buffer then buffer ! k else NUL)"

definition digit :: "8 word \<Rightarrow> char" where
  "digit v = char_of (48 + unat v)"

definition step_hh :: "DateTime \<Rightarrow> bool \<Rightarrow> 8 word \<Rightarrow> nat \<Rightarrow> string \<Rightarrow> string" where
  "step_hh dt apTag hourReformatted i buffer =
     (if char_at buffer i = CHR ''h'' \<and> char_at buffer (i + 1) = CHR ''h'' then
        (if \<not> apTag
         then buffer[i := digit (dt_hh dt div 10), i + 1 := digit (dt_hh dt mod 10)]
         else buffer[i := digit (hourReformatted div 10),
                     i + 1 := digit (hourReformatted mod 10)])
      else buffer)"

definition step_mm :: "DateTime \<Rightarrow> nat \<Rightarrow> string \<Rightarrow> string" where
  "step_mm dt i buffer =
     (if char_at buffer i = CHR ''m'' \<and> char_at buffer (i + 1) = CHR ''m''
      then buffer[i := digit (dt_mm dt div 10), i + 1 := digit (dt_mm dt mod 10)]
      else buffer)"

definition step_ss :: "DateTime \<Rightarrow> nat \<Rightarrow> string \<Rightarrow> string" where
  "step_ss dt i buffer =
     (if char_at buffer i = CHR ''s'' \<and> char_at buffer (i + 1) = CHR ''s''
      then buffer[i := digit (dt_ss dt div 10), i + 1 := digit (dt_ss dt mod 10)]
      else buffer)"

definition step_D :: "flash \<Rightarrow> DateTime \<Rightarrow> nat \<Rightarrow> string \<Rightarrow> string" where
  "step_D pgm dt i buffer =
     (if char_at buffer i = CHR ''D'' \<and> char_at buffer (i + 1) = CHR ''D'' \<and> char_at buffer (i + 2) = CHR ''D''
      then (let p = 3 * unat (dayOfTheWeek pgm dt)
            in buffer[i := day_names ! p, i + 1 := day_names ! (p + 1),
                      i + 2 := day_names ! (p + 2)])
      else if char_at buffer i = CHR ''D'' \<and> char_at buffer (i + 1) = CHR ''D''
      then buffer[i := digit (dt_d dt div 10), i + 1 := digit (dt_d dt mod 10)]
      else buffer)"

definition step_M :: "flash \<Rightarrow> DateTime \<Rightarrow> nat \<Rightarrow> string \<Rightarrow> string" where
  "step_M pgm dt i buffer =
     (if char_at buffer i = CHR ''M'' \<and> char_at buffer (i + 1) = CHR ''M'' \<and> char_at buffer (i + 2) = CHR ''M''
      then (let p = 3 * (int (unat (dt_m dt)) - 1)
            in buffer[i := pgm_read_byte_month_names pgm p,
                      i + 1 := pgm_read_byte_month_names pgm (p + 1),
                      i + 2 := pgm_read_byte_month_names pgm (p + 2)])
      else if char_at buffer i = CHR ''M'' \<and> char_at buffer (i + 1) = CHR ''M''
      then buffer[i := digit (dt_m dt div 10), i + 1 := digit (dt_m dt mod 10)]
      else buffer)"

definition step_Y :: "DateTime \<Rightarrow> nat \<Rightarrow> string \<Rightarrow> string" where
  "step_Y dt i buffer =
     (if char_at buffer i = CHR ''Y'' \<and> char_at buffer (i + 1) = CHR ''Y'' \<and> char_at buffer (i + 2) = CHR ''Y''
         \<and> char_at buffer (i + 3) = CHR ''Y''
      then buffer[i := CHR ''2'', i + 1 := CHR ''0'',
                  i + 2 := digit (dt_yOff dt div 10 mod 10), i + 3 := digit (dt_yOff dt mod 10)]
      else if char_at buffer i = CHR ''Y'' \<and> char_at buffer (i + 1) = CHR ''Y''
      then buffer[i := digit (dt_yOff dt div 10 mod 10), i + 1 := digit (dt_yOff dt mod 10)]
      else buffer)"

definition step_AP :: "bool \<Rightarrow> nat \<Rightarrow> string \<Rightarrow> string" where
  "step_AP isPM i buffer =
     (if char_at buffer i = CHR ''A'' \<and> char_at buffer (i + 1) = CHR ''P''
      then (if isPM then buffer[i := CHR ''P'', i + 1 := CHR ''M'']
            else buffer[i := CHR ''A'', i + 1 := CHR ''M''])
      else if char_at buffer i = CHR ''a'' \<and> char_at buffer (i + 1) = CHR ''p''
      then (if isPM then buffer[i := CHR ''p'', i + 1 := CHR ''m'']
            else buffer[i := CHR ''a'', i + 1 := CHR ''m''])
      else buffer)"

definition toString_body ::
  "flash \<Rightarrow> DateTime \<Rightarrow> bool \<Rightarrow> 8 word \<Rightarrow> bool \<Rightarrow> nat \<Rightarrow> string \<Rightarrow> string" where
  "toString_body pgm dt apTag hourReformatted isPM i buffer =
     step_AP isPM i (step_Y dt i (step_M pgm dt i (step_D pgm dt i (step_ss dt i
       (step_mm dt i (step_hh dt apTag hourReformatted i buffer))))))"

function toString_loop ::
  "flash \<Rightarrow> DateTime \<Rightarrow> bool \<Rightarrow> 8 word \<Rightarrow> bool \<Rightarrow> nat \<Rightarrow> string \<Rightarrow> string option" where
  "toString_loop pgm dt apTag hourReformatted isPM i buffer =
     (if strlen buffer = 0 then None
      else if i < strlen buffer - 1
      then toString_loop pgm dt apTag hourReformatted isPM (i + 1)
             (toString_body pgm dt apTag hourReformatted isPM i buffer)
      else Some buffer)"
  by pat_completeness auto
termination
proof (relation "measure (\<lambda>(pgm, dt, apTag, hr, isPM, i, buffer). length buffer - i)")
  show "wf (measure (\<lambda>(pgm, dt, apTag, hr, isPM, i, buffer). length buffer - i))" by simp
next
  fix pgm :: flash and dt :: DateTime and apTag isPM :: bool and hr :: "8 word"
    and i :: nat and buffer :: string
  assume "i < strlen buffer - 1"
  moreover have "strlen buffer \<le> length buffer"
    by (simp add: strlen_def length_takeWhile_le)
  ultimately have i: "i < length buffer" by simp
  have 1: "length (step_hh dt apTag hr i b) = length b" for b by (simp add: step_hh_def)
  have 2: "length (step_mm dt i b) = length b" for b by (simp add: step_mm_def)
  have 3: "length (step_ss dt i b) = length b" for b by (simp add: step_ss_def)
  have 4: "length (step_D pgm dt i b) = length b" for b by (simp add: step_D_def Let_def)
  have 5: "length (step_M pgm dt i b) = length b" for b by (simp add: step_M_def Let_def)
  have 6: "length (step_Y dt i b) = length b" for b by (simp add: step_Y_def)
  have 7: "length (step_AP isPM i b) = length b" for b by (simp add: step_AP_def)
  have "length (toString_body pgm dt apTag hr isPM i buffer) = length buffer"
    unfolding toString_body_def by (simp only: 1 2 3 4 5 6 7)
  with i show "((pgm, dt, apTag, hr, isPM, i + 1, toString_body pgm dt apTag hr isPM i buffer),
              (pgm, dt, apTag, hr, isPM, i, buffer))
       \<in> measure (\<lambda>(pgm, dt, apTag, hr, isPM, i, buffer). length buffer - i)"
    by simp
qed

declare toString_loop.simps [simp del]

definition toString :: "flash \<Rightarrow> DateTime \<Rightarrow> string \<Rightarrow> string option" where
  "toString pgm dt buffer =
     (let str = takeWhile (\<lambda>c. c \<noteq> NUL) buffer;
          apTag = (strstr_found str ''ap'' \<or> strstr_found str ''AP'');
          (hourReformatted, isPM) =
             (if apTag then
                (if dt_hh dt = 0 then (12, False)
                 else if dt_hh dt = 12 then (12, True)
                 else if dt_hh dt < 12 then (dt_hh dt, False)
                 else (dt_hh dt - 12, True))
              else (0, False))
      in toString_loop pgm dt apTag hourReformatted isPM 0 buffer)"

subsection \<open>TimeSpan\<close>

text \<open>
  The one field \<open>_seconds\<close>, an \<open>int32_t\<close>. The four-argument constructor widens
  each argument to 32 bits with its sign and sums the products; a sum outside the
  \<open>int32_t\<close> range is an overflow in the source and wraps here. The accessors divide
  and take remainders as C does, towards zero (\<open>sdiv\<close>, \<open>smod\<close>), and cut the result
  to their return types \<open>int16_t\<close> and \<open>int8_t\<close>.
\<close>

record TimeSpan =
  ts_seconds :: "32 word"

definition TimeSpan_of_seconds :: "32 word \<Rightarrow> TimeSpan" where
  "TimeSpan_of_seconds seconds = \<lparr>ts_seconds = seconds\<rparr>"

definition TimeSpan_of_dhms :: "16 word \<Rightarrow> 8 word \<Rightarrow> 8 word \<Rightarrow> 8 word \<Rightarrow> TimeSpan" where
  "TimeSpan_of_dhms days hours minutes seconds =
     \<lparr>ts_seconds = (scast days :: 32 word) * 86400 + (scast hours :: 32 word) * 3600
                   + (scast minutes :: 32 word) * 60 + (scast seconds :: 32 word)\<rparr>"

definition days :: "TimeSpan \<Rightarrow> 16 word" where
  "days ts = word_of_int (sint (ts_seconds ts) sdiv 86400)"

definition hours :: "TimeSpan \<Rightarrow> 8 word" where
  "hours ts = word_of_int (sint (ts_seconds ts) sdiv 3600 smod 24)"

definition minutes :: "TimeSpan \<Rightarrow> 8 word" where
  "minutes ts = word_of_int (sint (ts_seconds ts) sdiv 60 smod 60)"

definition seconds :: "TimeSpan \<Rightarrow> 8 word" where
  "seconds ts = word_of_int (sint (ts_seconds ts) smod 60)"

definition totalseconds :: "TimeSpan \<Rightarrow> 32 word" where
  "totalseconds ts = ts_seconds ts"




section \<open>The calendar, for stating and proving the properties\<close>

text \<open>
  The Gregorian calendar the properties speak of: leap years, the length of a month,
  and what it means for the six stored fields to be a real date and time of the years
  2000 to 2099.
\<close>

definition leap_year :: "nat \<Rightarrow> bool" where
  "leap_year y \<longleftrightarrow> y mod 4 = 0 \<and> (y mod 100 \<noteq> 0 \<or> y mod 400 = 0)"

definition days_in_month :: "nat \<Rightarrow> nat \<Rightarrow> nat" where
  "days_in_month y k =
     (if k = 2 then (if leap_year y then 29 else 28)
      else if k = 4 \<or> k = 6 \<or> k = 9 \<or> k = 11 then 30 else 31)"

definition calendar_date :: "DateTime \<Rightarrow> bool" where
  "calendar_date dt \<longleftrightarrow>
     unat (dt_yOff dt) < 100
   \<and> 1 \<le> unat (dt_m dt) \<and> unat (dt_m dt) \<le> 12
   \<and> 1 \<le> unat (dt_d dt)
   \<and> unat (dt_d dt) \<le> days_in_month (2000 + unat (dt_yOff dt)) (unat (dt_m dt))
   \<and> unat (dt_hh dt) < 24 \<and> unat (dt_mm dt) < 60 \<and> unat (dt_ss dt) < 60"

text \<open>
  The same calendar as the source counts it, on natural numbers: the length of year
  \<open>2000 + y\<close> and the days before it under the four-year rule, the length of a month
  from the table (December is 31) and the days before it in its year, the number of a day
  since 2000-01-01 and of a second since 2000-01-01 00:00:00.
\<close>

definition year_length :: "nat \<Rightarrow> nat" where
  "year_length y = 365 + (if y mod 4 = 0 then 1 else 0)"

definition days_before_year :: "nat \<Rightarrow> nat" where
  "days_before_year y = 365 * y + (y + 3) div 4"

definition month_length :: "bool \<Rightarrow> nat \<Rightarrow> nat" where
  "month_length l k = (if k = 12 then 31
               else unat (daysInMonth ! (k - 1)) + (if l \<and> k = 2 then 1 else 0))"

definition days_before_month :: "bool \<Rightarrow> nat \<Rightarrow> nat" where
  "days_before_month l k = sum_list (map (month_length l) [1..<k])"

definition civil_day :: "nat \<Rightarrow> nat \<Rightarrow> nat \<Rightarrow> nat \<Rightarrow> bool" where
  "civil_day y k d n \<longleftrightarrow>
     1 \<le> k \<and> k \<le> 12 \<and> 1 \<le> d \<and> d \<le> month_length (y mod 4 = 0) k
   \<and> days_before_year y + days_before_month (y mod 4 = 0) k + d = Suc n"

definition day_number :: "DateTime \<Rightarrow> nat" where
  "day_number dt = days_before_year (unat (dt_yOff dt))
                 + days_before_month (unat (dt_yOff dt) mod 4 = 0) (unat (dt_m dt)) + unat (dt_d dt) - 1"

definition second_number :: "DateTime \<Rightarrow> nat" where
  "second_number dt =
     ((day_number dt * 24 + unat (dt_hh dt)) * 60 + unat (dt_mm dt)) * 60 + unat (dt_ss dt)"

text \<open>The characters a token of the format can begin with.\<close>

definition token_start :: "char \<Rightarrow> bool" where
  "token_start c \<longleftrightarrow> c = CHR ''h'' \<or> c = CHR ''m'' \<or> c = CHR ''s'' \<or> c = CHR ''D''
                   \<or> c = CHR ''M'' \<or> c = CHR ''Y'' \<or> c = CHR ''A'' \<or> c = CHR ''a''"

text \<open>
  A position at which the scan of \<open>toString\<close> meets the token \<open>hh\<close>: the buffer holds
  \<open>h\<close> at \<open>p\<close> and at \<open>p + 1\<close>, and the run of \<open>h\<close> that ends just before \<open>p\<close>
  (from \<open>q\<close> to \<open>p - 1\<close>) has even length. The scan takes the \<open>h\<close> of a run two at a
  time from its start, so in \<open>hhh\<close> the token is at 0 and not at 1.
\<close>

definition hh_token :: "string \<Rightarrow> nat \<Rightarrow> bool" where
  "hh_token buffer p \<longleftrightarrow>
     p + 1 < length buffer \<and> buffer ! p = CHR ''h'' \<and> buffer ! (p + 1) = CHR ''h''
   \<and> (\<exists>q \<in> {0..p}. even (p - q) \<and> (\<forall>k \<in> {q..<p}. buffer ! k = CHR ''h'')
          \<and> (q = 0 \<or> buffer ! (q - 1) \<noteq> CHR ''h''))"

text \<open>Program memory in which every byte outside the tables reads \<open>0xFF\<close>.\<close>

definition erased :: flash where
  "erased = \<lparr>past_daysInMonth = (\<lambda>k. 255), around_month_names = (\<lambda>k. char_of (255 :: nat))\<rparr>"

section \<open>Years and months on natural numbers\<close>

lemma days_before_year_Suc: "days_before_year (Suc y) = days_before_year y + year_length y"
proof -
  have "(Suc y + 3) div 4 = (y + 3) div 4 + (if y mod 4 = 0 then 1 else 0)"
    by presburger
  then show ?thesis by (simp add: days_before_year_def year_length_def)
qed

lemma days_before_year_mono: "y1 < y2 \<Longrightarrow> days_before_year y1 + year_length y1 \<le> days_before_year y2"
proof (induction y2)
  case 0
  then show ?case by simp
next
  case (Suc k)
  show ?case
  proof (cases "y1 = k")
    case True
    then show ?thesis by (simp add: days_before_year_Suc)
  next
    case False
    with Suc.prems have "y1 < k" by simp
    from Suc.IH[OF this] show ?thesis by (simp add: days_before_year_Suc)
  qed
qed

lemma days_before_year_unique:
  assumes "days_before_year y1 + r1 = days_before_year y2 + r2" "r1 < year_length y1" "r2 < year_length y2"
  shows "y1 = y2 \<and> r1 = r2"
proof -
  have "\<not> y1 < y2" using days_before_year_mono[of y1 y2] assms by auto
  moreover have "\<not> y2 < y1" using days_before_year_mono[of y2 y1] assms by auto
  ultimately have "y1 = y2" by simp
  with assms show ?thesis by simp
qed

lemma leap_word: "(yOff :: 8 word) mod 4 = 0 \<longleftrightarrow> unat yOff mod 4 = 0"
proof -
  have "unat (yOff mod 4) = unat yOff mod 4" by (simp add: unat_mod)
  then show ?thesis by (metis unat_0 unat_eq_zero)
qed

lemma year_loop_sound:
  "365 * unat yOff + unat ds < 93440 \<Longrightarrow> year_loop yOff ds = (y', l', r') \<Longrightarrow>
     days_before_year (unat yOff) + unat ds = days_before_year (unat y') + unat r'
   \<and> unat r' < year_length (unat y')
   \<and> l' = (if unat y' mod 4 = 0 then 1 else 0)"
proof (induction yOff ds rule: year_loop.induct)
  case (1 yOff ds)
  define leap :: "8 word" where "leap = (if yOff mod 4 = 0 then 1 else 0)"
  have ul: "unat (365 + ucast leap :: 16 word) = year_length (unat yOff)"
    by (simp add: leap_def year_length_def leap_word)
  show ?case
  proof (cases "ds < 365 + ucast leap")
    case True
    then have "year_loop yOff ds = (yOff, leap, ds)"
      by (subst year_loop.simps) (simp add: leap_def)
    with "1.prems"(2) have e: "y' = yOff" "l' = leap" "r' = ds" by simp_all
    from True have "unat ds < year_length (unat yOff)" using ul by (simp add: word_less_nat_alt)
    then show ?thesis using e by (simp add: leap_def leap_word)
  next
    case False
    then have ge: "year_length (unat yOff) \<le> unat ds" using ul by (simp add: word_less_nat_alt)
    have rec: "year_loop yOff ds = year_loop (yOff + 1) (ds - (365 + ucast leap))"
      using False by (subst year_loop.simps) (simp add: leap_def)
    have ud: "unat (ds - (365 + ucast leap)) = unat ds - year_length (unat yOff)"
      using ge ul by (simp add: unat_sub word_le_nat_alt)
    have "365 \<le> unat ds" using ge by (simp add: year_length_def)
    then have "unat yOff < 255" using "1.prems"(1) by simp
    then have uy: "unat (yOff + 1) = Suc (unat yOff)" by (simp add: unat_word_ariths)
    have pre: "365 * unat (yOff + 1) + unat (ds - (365 + ucast leap)) < 93440"
      using uy ud ge "1.prems"(1) by (simp add: year_length_def)
    have "days_before_year (unat (yOff + 1)) + unat (ds - (365 + ucast leap)) = days_before_year (unat y') + unat r'
        \<and> unat r' < year_length (unat y') \<and> l' = (if unat y' mod 4 = 0 then 1 else 0)"
      using "1.IH"[OF leap_def False pre] rec "1.prems"(2) by simp
    then show ?thesis using uy ud ge by (simp add: days_before_year_Suc)
  qed
qed

lemma days_before_month_Suc: "1 \<le> k \<Longrightarrow> days_before_month l (Suc k) = days_before_month l k + month_length l k"
  by (simp add: days_before_month_def)

lemma days_before_month_1: "days_before_month l 1 = 0" "days_before_month l (Suc 0) = 0"
  by (simp_all add: days_before_month_def)

lemma days_before_month_mono: "1 \<le> m1 \<Longrightarrow> m1 < m2 \<Longrightarrow> days_before_month l m1 + month_length l m1 \<le> days_before_month l m2"
proof (induction m2)
  case 0
  then show ?case by simp
next
  case (Suc k)
  show ?case
  proof (cases "m1 = k")
    case True
    then show ?thesis using Suc.prems by (simp add: days_before_month_Suc)
  next
    case False
    with Suc.prems have lt: "m1 < k" by simp
    then have "1 \<le> k" using Suc.prems by simp
    with Suc.IH[OF Suc.prems(1) lt] show ?thesis by (simp add: days_before_month_Suc)
  qed
qed

lemma days_before_month_unique:
  assumes "days_before_month l m1 + r1 = days_before_month l m2 + r2" "r1 < month_length l m1" "r2 < month_length l m2"
    "1 \<le> m1" "1 \<le> m2"
  shows "m1 = m2 \<and> r1 = r2"
proof -
  have "\<not> m1 < m2" using days_before_month_mono[of m1 m2 l] assms by auto
  moreover have "\<not> m2 < m1" using days_before_month_mono[of m2 m1 l] assms by auto
  ultimately have "m1 = m2" by simp
  with assms show ?thesis by simp
qed

lemma small_cases:
  "1 \<le> (k::nat) \<Longrightarrow> k \<le> 12 \<Longrightarrow>
     k = 1 \<or> k = 2 \<or> k = 3 \<or> k = 4 \<or> k = 5 \<or> k = 6 \<or> k = 7 \<or> k = 8 \<or> k = 9
   \<or> k = 10 \<or> k = 11 \<or> k = 12"
  by arith

lemma month_length_table:
  "month_length l 1 = 31" "month_length l 2 = (if l then 29 else 28)" "month_length l 3 = 31" "month_length l 4 = 30"
  "month_length l 5 = 31" "month_length l 6 = 30" "month_length l 7 = 31" "month_length l 8 = 31" "month_length l 9 = 30"
  "month_length l 10 = 31" "month_length l 11 = 30" "month_length l 12 = 31" "month_length l (Suc 0) = 31"
  by (simp_all add: month_length_def daysInMonth_def)

lemma days_before_month_13: "days_before_month l 13 = year_length (if l then 0 else 1)"
  by (simp add: days_before_month_def upt_rec month_length_def daysInMonth_def year_length_def)

lemma word8_of_unat: "unat (m :: 8 word) = k \<Longrightarrow> m = of_nat k"
  by auto

lemma month_length_word:
  fixes m leap :: "8 word"
  assumes "1 \<le> unat m" "unat m < 12"
  shows "unat (ucast (if leap \<noteq> 0 \<and> m = 2 then daysInMonth ! (unat m - 1) + 1
                       else daysInMonth ! (unat m - 1)) :: 16 word)
           = month_length (leap \<noteq> 0) (unat m)"
proof -
  from assms have "unat m = 1 \<or> unat m = 2 \<or> unat m = 3 \<or> unat m = 4 \<or> unat m = 5
      \<or> unat m = 6 \<or> unat m = 7 \<or> unat m = 8 \<or> unat m = 9 \<or> unat m = 10 \<or> unat m = 11"
    by arith
  then show ?thesis
    by (elim disjE) (auto dest!: word8_of_unat simp: month_length_def daysInMonth_def)
qed

lemma month_loop_sound:
  "1 \<le> unat m \<Longrightarrow> unat m \<le> 12 \<Longrightarrow> month_loop leap m ds = (m', r') \<Longrightarrow>
     days_before_month (leap \<noteq> 0) (unat m) + unat ds = days_before_month (leap \<noteq> 0) (unat m') + unat r'
   \<and> 1 \<le> unat m' \<and> unat m' \<le> 12
   \<and> (unat m' < 12 \<longrightarrow> unat r' < month_length (leap \<noteq> 0) (unat m'))"
proof (induction leap m ds rule: month_loop.induct)
  case (1 leap m ds)
  show ?case
  proof (cases "m < 12")
    case False
    then have "month_loop leap m ds = (m, ds)" by (subst month_loop.simps) simp
    with "1.prems" False show ?thesis by (simp add: word_less_nat_alt)
  next
    case True
    then have m12: "unat m < 12" by (simp add: word_less_nat_alt)
    define dpm0 where "dpm0 = daysInMonth ! (unat m - 1)"
    define dpm where "dpm = (if leap \<noteq> 0 \<and> m = 2 then dpm0 + 1 else dpm0)"
    have udpm: "unat (ucast dpm :: 16 word) = month_length (leap \<noteq> 0) (unat m)"
      unfolding dpm_def dpm0_def using month_length_word[OF "1.prems"(1) m12] .
    have step: "month_loop leap m ds
        = (if ds < ucast dpm then (m, ds) else month_loop leap (m + 1) (ds - ucast dpm))"
      using True by (subst month_loop.simps) (simp only: dpm_def dpm0_def Let_def if_True)
    show ?thesis
    proof (cases "ds < ucast dpm")
      case lt: True
      then have "month_loop leap m ds = (m, ds)"
        using step by simp
      with "1.prems" lt udpm m12 show ?thesis by (simp add: word_less_nat_alt)
    next
      case ge: False
      then have rec: "month_loop leap m ds = month_loop leap (m + 1) (ds - ucast dpm)"
        using step by simp
      have le: "month_length (leap \<noteq> 0) (unat m) \<le> unat ds"
        using ge udpm by (simp add: word_less_nat_alt)
      have ud: "unat (ds - ucast dpm) = unat ds - month_length (leap \<noteq> 0) (unat m)"
        using le udpm by (simp add: unat_sub word_le_nat_alt)
      have um: "unat (m + 1) = Suc (unat m)" using m12 by (simp add: unat_word_ariths)
      have "days_before_month (leap \<noteq> 0) (unat (m + 1)) + unat (ds - ucast dpm)
              = days_before_month (leap \<noteq> 0) (unat m') + unat r'
          \<and> 1 \<le> unat m' \<and> unat m' \<le> 12
          \<and> (unat m' < 12 \<longrightarrow> unat r' < month_length (leap \<noteq> 0) (unat m'))"
        using "1.IH"[OF True dpm0_def dpm_def ge] rec "1.prems" um m12 by simp
      then show ?thesis using um ud le "1.prems"(1) by (simp add: days_before_month_Suc)
    qed
  qed
qed

lemma dbm_13': "days_before_month l 13 = 365 + (if l then 1 else 0)"
  by (simp add: days_before_month_13 year_length_def)

lemma month_length_le_31: "1 \<le> k \<Longrightarrow> k \<le> 12 \<Longrightarrow> month_length l k \<le> 31"
  using small_cases[of k] by (auto simp: month_length_table)

lemma month_length_pos: "1 \<le> k \<Longrightarrow> k \<le> 12 \<Longrightarrow> 28 \<le> month_length l k"
  using small_cases[of k] by (auto simp: month_length_table)

lemma unat_ucast_mod:
  "unat (ucast (w :: 'a::len word) :: 'b::len word) = unat w mod 2 ^ LENGTH('b)"
  by (simp add: unsigned_ucast_eq take_bit_eq_mod)

lemma civil_dayD:
  assumes "civil_day y k d n"
  shows "1 \<le> k" "k \<le> 12" "1 \<le> d" "d \<le> month_length (y mod 4 = 0) k"
    "days_before_year y + days_before_month (y mod 4 = 0) k + d = Suc n"
  using assms by (simp_all add: civil_day_def)

lemma civil_day_unique:
  assumes "civil_day y1 k1 d1 n" "civil_day y2 k2 d2 n"
  shows "y1 = y2 \<and> k1 = k2 \<and> d1 = d2"
proof -
  let ?l1 = "y1 mod 4 = 0" and ?l2 = "y2 mod 4 = 0"
  note c1 = civil_dayD[OF assms(1)] and c2 = civil_dayD[OF assms(2)]
  have in_year: "days_before_month l k + d - 1 < year_length y"
    if "1 \<le> k" "k \<le> 12" "1 \<le> d" "d \<le> month_length l k" "l = (y mod 4 = 0)" for l k d y
  proof -
    have "days_before_month l k + month_length l k \<le> days_before_month l 13"
      using days_before_month_mono[of k 13 l] that by simp
    then show ?thesis using that by (simp add: dbm_13' year_length_def split: if_splits)
  qed
  have r1: "days_before_month ?l1 k1 + d1 - 1 < year_length y1" using c1 by (intro in_year) simp_all
  have r2: "days_before_month ?l2 k2 + d2 - 1 < year_length y2" using c2 by (intro in_year) simp_all
  have "days_before_year y1 + (days_before_month ?l1 k1 + d1 - 1) = days_before_year y2 + (days_before_month ?l2 k2 + d2 - 1)"
    using c1 c2 by linarith
  from days_before_year_unique[OF this r1 r2] have y: "y1 = y2"
    and e: "days_before_month ?l1 k1 + d1 - 1 = days_before_month ?l2 k2 + d2 - 1"
    by blast+
  have e': "days_before_month ?l1 k1 + (d1 - 1) = days_before_month ?l1 k2 + (d2 - 1)"
    using e c1(3) c2(3) unfolding y by linarith
  have "d1 - 1 < month_length ?l1 k1" using c1 by linarith
  moreover have "d2 - 1 < month_length ?l1 k2" using c2 unfolding y by linarith
  ultimately have "k1 = k2 \<and> d1 - 1 = d2 - 1"
    using e' c1(1) c2(1) by (intro days_before_month_unique)
  then show ?thesis using y c1(3) c2(3) by linarith
qed

lemma of_unixtime_time:
  fixes T :: "32 word"
  defines "n \<equiv> unat (T - SECONDS_FROM_1970_TO_2000)"
  shows "unat (dt_ss (DateTime_of_unixtime T)) = n mod 60"
    and "unat (dt_mm (DateTime_of_unixtime T)) = n div 60 mod 60"
    and "unat (dt_hh (DateTime_of_unixtime T)) = n div 3600 mod 24"
proof -
  have a: "n mod 60 mod 256 = n mod 60" by (simp add: mod_less)
  have b: "n div 60 mod 60 mod 256 = n div 60 mod 60" by (simp add: mod_less)
  have c: "n div 60 div 60 mod 24 mod 256 = n div 60 div 60 mod 24" by (simp add: mod_less)
  show "unat (dt_ss (DateTime_of_unixtime T)) = n mod 60"
    using a by (simp add: DateTime_of_unixtime_def Let_def split_beta unat_ucast_mod unat_mod n_def)
  show "unat (dt_mm (DateTime_of_unixtime T)) = n div 60 mod 60"
    using b by (simp add: DateTime_of_unixtime_def Let_def split_beta unat_ucast_mod unat_mod unat_div n_def)
  have d: "n div 3600 = n div 60 div 60" using div_mult2_eq[of n 60 60] by simp
  show "unat (dt_hh (DateTime_of_unixtime T)) = n div 3600 mod 24"
    unfolding d using c by (simp add: DateTime_of_unixtime_def Let_def split_beta unat_ucast_mod unat_mod unat_div n_def)
qed

lemma of_unixtime_date:
  fixes T :: "32 word"
  defines "n \<equiv> unat (T - SECONDS_FROM_1970_TO_2000)"
  shows "civil_day (unat (dt_yOff (DateTime_of_unixtime T))) (unat (dt_m (DateTime_of_unixtime T)))
           (unat (dt_d (DateTime_of_unixtime T))) (n div 86400)"
proof -
  define t where "t = T - SECONDS_FROM_1970_TO_2000"
  define ds :: "16 word" where "ds = ucast (t div 60 div 60 div 24)"
  obtain y' l' r' where yl: "year_loop 0 ds = (y', l', r')" by (cases "year_loop 0 ds") auto
  obtain m' r'' where ml: "month_loop l' 1 r' = (m', r'')" by (cases "month_loop l' 1 r'") auto
  have dt: "DateTime_of_unixtime T = \<lparr>dt_yOff = y', dt_m = m', dt_d = ucast (r'' + 1),
       dt_hh = ucast (t div 60 div 60 mod 24), dt_mm = ucast (t div 60 mod 60), dt_ss = ucast (t mod 60)\<rparr>"
    using yl ml by (simp add: DateTime_of_unixtime_def Let_def t_def ds_def)
  have "n < 2 ^ 32" unfolding n_def using unsigned_less[of "T - SECONDS_FROM_1970_TO_2000", where 'a=nat] by simp
  then have nb: "n div 86400 < 49711" by simp
  have "n div 86400 = n div 60 div 60 div 24"
    using div_mult2_eq[of n 60 60] div_mult2_eq[of n 3600 24] by simp
  then have "unat (t div 60 div 60 div 24) = n div 86400"
    by (simp add: unat_div t_def n_def)
  then have uds: "unat ds = n div 86400" using nb by (simp add: ds_def unat_ucast_mod)
  have ys: "days_before_year (unat (0::8 word)) + unat ds = days_before_year (unat y') + unat r'
      \<and> unat r' < year_length (unat y') \<and> l' = (if unat y' mod 4 = 0 then 1 else 0)"
    using nb uds by (intro year_loop_sound[OF _ yl]) simp
  then have l: "(l' \<noteq> 0) = (unat y' mod 4 = 0)" by simp
  have ms: "days_before_month (l' \<noteq> 0) (unat (1::8 word)) + unat r' = days_before_month (l' \<noteq> 0) (unat m') + unat r''
      \<and> 1 \<le> unat m' \<and> unat m' \<le> 12 \<and> (unat m' < 12 \<longrightarrow> unat r'' < month_length (l' \<noteq> 0) (unat m'))"
    by (intro month_loop_sound[OF _ _ ml]) simp_all
  have r''lt: "unat r'' < month_length (l' \<noteq> 0) (unat m')"
  proof (cases "unat m' < 12")
    case True
    then show ?thesis using ms by simp
  next
    case False
    then have m12: "unat m' = 12" using ms by simp
    have "days_before_month (l' \<noteq> 0) 13 = days_before_month (l' \<noteq> 0) 12 + month_length (l' \<noteq> 0) 12"
      using days_before_month_Suc[of 12 "l' \<noteq> 0"] by simp
    moreover have "unat r' = days_before_month (l' \<noteq> 0) 12 + unat r''" using ms m12 by (simp add: days_before_month_1)
    moreover have "unat r' < 365 + (if l' \<noteq> 0 then 1 else 0)" using ys l by (simp add: year_length_def)
    ultimately show ?thesis unfolding m12 dbm_13' by linarith
  qed
  then have "unat r'' < 31" using month_length_le_31[of "unat m'" "l' \<noteq> 0"] ms by simp
  then have "unat (r'' + 1) = unat r'' + 1" by (simp add: unat_word_ariths)
  then have ud: "unat (ucast (r'' + 1) :: 8 word) = unat r'' + 1"
    using \<open>unat r'' < 31\<close> by (simp add: unat_ucast_mod)
  show ?thesis
    unfolding dt civil_day_def using ms ys r''lt ud l uds by (simp add: days_before_year_def days_before_month_1)
qed

lemma month_length_leap: "month_length True k = month_length False k + (if k = 2 then 1 else 0)"
  by (simp add: month_length_def)

lemma days_before_month_leap: "1 \<le> k \<Longrightarrow> days_before_month True k = days_before_month False k + (if 2 < k then 1 else 0)"
proof (induction k)
  case 0
  then show ?case by simp
next
  case (Suc k)
  show ?case
  proof (cases "k = 0")
    case True
    then show ?thesis by (simp add: days_before_month_1)
  next
    case False
    then have "1 \<le> k" by simp
    with Suc.IH show ?thesis by (auto simp: days_before_month_Suc month_length_leap)
  qed
qed

lemma days_before_month_le: "1 \<le> k \<Longrightarrow> k \<le> 12 \<Longrightarrow> days_before_month l k + month_length l k \<le> 365 + (if l then 1 else 0)"
  using days_before_month_mono[of k 13 l] by (simp add: dbm_13')

lemma fold_months:
  "1 \<le> k \<Longrightarrow> k \<le> 12 \<Longrightarrow>
     fold (\<lambda>i ds. ds + ucast (pgm_read_byte_daysInMonth pgm (i - 1))) [1..<k] (x :: 16 word)
       = x + of_nat (days_before_month False k)"
proof (induction k)
  case 0
  then show ?case by simp
next
  case (Suc k)
  show ?case
  proof (cases "k = 0")
    case True
    then show ?thesis by (simp add: days_before_month_1)
  next
    case False
    then have k: "1 \<le> k" "k \<le> 11" using Suc.prems by simp_all
    have len: "length daysInMonth = 11" by (simp add: daysInMonth_def)
    have "k - 1 < 11" using k by arith
    then have rd: "pgm_read_byte_daysInMonth pgm (k - 1) = daysInMonth ! (k - 1)"
      unfolding pgm_read_byte_daysInMonth_def len by simp
    have ml: "month_length False k = unat (daysInMonth ! (k - 1))" using k by (simp add: month_length_def)
    have "[1..<Suc k] = [1..<k] @ [k]" using k by simp
    then have "fold (\<lambda>i ds. ds + ucast (pgm_read_byte_daysInMonth pgm (i - 1))) [1..<Suc k] x
        = fold (\<lambda>i ds. ds + ucast (pgm_read_byte_daysInMonth pgm (i - 1))) [1..<k] x
            + ucast (daysInMonth ! (k - 1))"
      using rd by simp
    also have "\<dots> = x + of_nat (days_before_month False k) + ucast (daysInMonth ! (k - 1))"
      using Suc.IH k by simp
    also have "\<dots> = x + of_nat (days_before_month False (Suc k))"
      using k by (simp add: days_before_month_Suc ml)
    finally show ?thesis .
  qed
qed

lemma date2days_civil:
  fixes yo m d :: "8 word"
  assumes "unat yo < 100" "1 \<le> unat m" "unat m \<le> 12" "1 \<le> unat d"
  shows "Suc (unat (date2days pgm (ucast yo) m d))
           = days_before_year (unat yo) + days_before_month (unat yo mod 4 = 0) (unat m) + unat d"
proof -
  let ?l = "unat yo mod 4 = 0"
  let ?y = "ucast yo :: 16 word"
  have uy: "unat ?y = unat yo" using unsigned_less[of yo, where 'a=nat] by (simp add: unat_ucast_mod)
  have y_of: "?y = of_nat (unat yo)" by simp
  have n2000: "\<not> 2000 \<le> ?y" using assms(1) uy by (simp add: word_le_nat_alt)
  have y1: "(if 2000 \<le> ?y then ?y - 2000 else ?y) = ?y" using n2000 by simp
  have m2: "(2 < m) = (2 < unat m)" by (simp add: word_less_nat_alt)
  have "unat (?y mod 4) = unat yo mod 4" using uy by (simp add: unat_mod)
  moreover have "(?y mod 4 = 0) = (unat (?y mod 4) = 0)" by (simp only: unat_eq_zero)
  ultimately have lp: "(?y mod 4 = 0) = ?l" by simp
  have "unat (?y + 3) = unat yo + 3" using uy assms(1) by (simp add: unat_word_ariths)
  then have "unat ((?y + 3) div 4) = (unat yo + 3) div 4" by (simp add: unat_div)
  then have q: "(?y + 3) div 4 = of_nat ((unat yo + 3) div 4)" by (metis of_nat_unat ucast_id)
  have d_of: "(ucast d :: 16 word) = of_nat (unat d)" by simp
  define A where "A = unat d + days_before_month ?l (unat m) + 365 * unat yo + (unat yo + 3) div 4"
  have dl: "days_before_month ?l (unat m) = days_before_month False (unat m) + (if 2 < unat m \<and> ?l then 1 else 0)"
    using days_before_month_leap[OF assms(2)] by (cases ?l) simp_all
  have "date2days pgm ?y m d
      = (if 2 < unat m \<and> ?l then of_nat (unat d) + of_nat (days_before_month False (unat m)) + 1
         else of_nat (unat d) + of_nat (days_before_month False (unat m)))
        + 365 * of_nat (unat yo) + of_nat ((unat yo + 3) div 4) - 1"
    unfolding date2days_def Let_def y1 fold_months[OF assms(2,3)] q m2 lp
    by simp
  also have "\<dots> = of_nat A - 1"
    unfolding A_def dl by simp
  finally have e: "date2days pgm ?y m d = of_nat (A - 1)"
    using assms(4) by (simp add: A_def)
  have "days_before_month ?l (unat m) \<le> 366" using days_before_month_le[OF assms(2,3), of ?l] by (simp split: if_splits)
  moreover have "unat d < 256" using unsigned_less[of d, where 'a=nat] by simp
  ultimately have "A < 65536" using assms(1) by (simp add: A_def)
  then have "unat (of_nat (A - 1) :: 16 word) = A - 1" by (simp add: unat_of_nat)
  then show ?thesis using e assms(4) by (simp add: A_def days_before_year_def)
qed

lemma leap_year_2000: "y < 100 \<Longrightarrow> leap_year (2000 + y) = (y mod 4 = 0)"
  unfolding leap_year_def by presburger

lemma days_in_month_mlen:
  "y < 100 \<Longrightarrow> 1 \<le> k \<Longrightarrow> k \<le> 12 \<Longrightarrow> days_in_month (2000 + y) k = month_length (y mod 4 = 0) k"
  using small_cases[of k] by (auto simp: days_in_month_def leap_year_2000 month_length_table)

lemma calendar_date_civil:
  "calendar_date dt \<Longrightarrow>
     civil_day (unat (dt_yOff dt)) (unat (dt_m dt)) (unat (dt_d dt)) (day_number dt)"
proof -
  assume c: "calendar_date dt"
  then have y: "unat (dt_yOff dt) < 100" and m: "1 \<le> unat (dt_m dt)" "unat (dt_m dt) \<le> 12"
    and d: "1 \<le> unat (dt_d dt)"
      "unat (dt_d dt) \<le> days_in_month (2000 + unat (dt_yOff dt)) (unat (dt_m dt))"
    by (simp_all add: calendar_date_def)
  from d(2) have "unat (dt_d dt) \<le> month_length (unat (dt_yOff dt) mod 4 = 0) (unat (dt_m dt))"
    unfolding days_in_month_mlen[OF y m] .
  with m d(1) show ?thesis unfolding civil_day_def day_number_def by simp
qed

lemma day_number_bound:
  assumes "unat (dt_yOff dt) < 100" "1 \<le> unat (dt_m dt)" "unat (dt_m dt) \<le> 12"
  shows "day_number dt < 36782"
proof -
  have "days_before_month (unat (dt_yOff dt) mod 4 = 0) (unat (dt_m dt)) \<le> 366"
    using days_before_month_le[OF assms(2,3), of "unat (dt_yOff dt) mod 4 = 0"] by (simp split: if_splits)
  moreover have "unat (dt_d dt) < 256" using unsigned_less[of "dt_d dt", where 'a=nat] by simp
  moreover have "days_before_year (unat (dt_yOff dt)) \<le> 365 * 99 + 25"
    using assms(1) by (simp add: days_before_year_def)
  ultimately show ?thesis by (simp add: day_number_def)
qed

lemma unixtime_seconds:
  assumes "unat (dt_yOff dt) < 100" "1 \<le> unat (dt_m dt)" "unat (dt_m dt) \<le> 12"
    "1 \<le> unat (dt_d dt)"
  shows "unat (unixtime pgm dt - SECONDS_FROM_1970_TO_2000) = second_number dt"
    and "unat (unixtime pgm dt) = 946684800 + second_number dt"
proof -
  let ?D = "date2days pgm (ucast (dt_yOff dt)) (dt_m dt) (dt_d dt)"
  have D: "unat ?D = day_number dt"
    using date2days_civil[OF assms, of pgm] by (simp add: day_number_def)
  have "time2ulong ?D (dt_hh dt) (dt_mm dt) (dt_ss dt)
      = of_nat (((unat ?D * 24 + unat (dt_hh dt)) * 60 + unat (dt_mm dt)) * 60 + unat (dt_ss dt))"
    by (simp add: time2ulong_def)
  then have t: "time2ulong ?D (dt_hh dt) (dt_mm dt) (dt_ss dt) = of_nat (second_number dt)"
    unfolding D second_number_def .
  have "unat (dt_hh dt) < 256" "unat (dt_mm dt) < 256" "unat (dt_ss dt) < 256"
    using unsigned_less[of "dt_hh dt", where 'a=nat] unsigned_less[of "dt_mm dt", where 'a=nat]
      unsigned_less[of "dt_ss dt", where 'a=nat] by simp_all
  then have b: "second_number dt < 3178898355"
    using day_number_bound[OF assms(1,2,3)] by (simp add: second_number_def)
  have "unixtime pgm dt - SECONDS_FROM_1970_TO_2000 = of_nat (second_number dt)"
    using t by (simp add: unixtime_def)
  then show "unat (unixtime pgm dt - SECONDS_FROM_1970_TO_2000) = second_number dt"
    using b by (simp add: unat_of_nat)
  have e: "unixtime pgm dt = of_nat (946684800 + second_number dt)"
    using t by (simp add: unixtime_def SECONDS_FROM_1970_TO_2000_def)
  have "(946684800 + second_number dt) mod 2 ^ LENGTH(32) = 946684800 + second_number dt"
    using b by simp
  then show "unat (unixtime pgm dt) = 946684800 + second_number dt"
    by (simp only: e unat_of_nat)
qed

lemma second_number_parts:
  assumes "unat (dt_hh dt) < 24" "unat (dt_mm dt) < 60" "unat (dt_ss dt) < 60"
  shows "second_number dt mod 60 = unat (dt_ss dt)"
    and "second_number dt div 60 mod 60 = unat (dt_mm dt)"
    and "second_number dt div 3600 mod 24 = unat (dt_hh dt)"
    and "second_number dt div 86400 = day_number dt"
proof -
  define D h mi s where "D = day_number dt" and "h = unat (dt_hh dt)"
    and "mi = unat (dt_mm dt)" and "s = unat (dt_ss dt)"
  define q1 q2 where "q1 = (D * 24 + h) * 60 + mi" and "q2 = D * 24 + h"
  have b: "h < 24" "mi < 60" "s < 60" using assms by (simp_all add: h_def mi_def s_def)
  have n: "second_number dt = s + 60 * q1"
    by (simp add: second_number_def D_def h_def mi_def s_def q1_def)
  have e1: "q1 = mi + 60 * q2" by (simp add: q1_def q2_def)
  have e2: "q2 = h + 24 * D" by (simp add: q2_def)
  have 1: "second_number dt div 60 = q1" unfolding n using b by simp
  have 2: "q1 div 60 = q2" unfolding e1 using b by simp
  have 3: "q2 div 24 = D" unfolding e2 using b by simp
  have 4: "second_number dt div 3600 = q2"
    using div_mult2_eq[of "second_number dt" 60 60] 1 2 by simp
  have 5: "second_number dt div 86400 = D"
    using div_mult2_eq[of "second_number dt" 3600 24] 4 3 by simp
  show "second_number dt mod 60 = unat (dt_ss dt)" unfolding n using b by (simp add: s_def)
  show "second_number dt div 60 mod 60 = unat (dt_mm dt)"
    unfolding 1 unfolding e1 using b by (simp add: mi_def)
  show "second_number dt div 3600 mod 24 = unat (dt_hh dt)"
    unfolding 4 unfolding e2 using b by (simp add: h_def)
  show "second_number dt div 86400 = day_number dt" using 5 by (simp add: D_def)
qed

lemma roundtrip:
  assumes "calendar_date dt"
  shows "DateTime_of_unixtime (unixtime pgm dt) = dt"
proof -
  let ?o = "DateTime_of_unixtime (unixtime pgm dt)"
  from assms have c: "unat (dt_yOff dt) < 100" "1 \<le> unat (dt_m dt)" "unat (dt_m dt) \<le> 12"
    "1 \<le> unat (dt_d dt)" "unat (dt_hh dt) < 24" "unat (dt_mm dt) < 60" "unat (dt_ss dt) < 60"
    by (simp_all add: calendar_date_def)
  note n = unixtime_seconds(1)[OF c(1-4), of pgm]
  note p = second_number_parts[OF c(5-7)]
  have "unat (dt_ss ?o) = unat (dt_ss dt)" "unat (dt_mm ?o) = unat (dt_mm dt)"
    "unat (dt_hh ?o) = unat (dt_hh dt)"
    using of_unixtime_time[of "unixtime pgm dt"] unfolding n p by simp_all
  then have t: "dt_ss ?o = dt_ss dt" "dt_mm ?o = dt_mm dt" "dt_hh ?o = dt_hh dt"
    by (simp_all add: word_unat_eq_iff)
  have "civil_day (unat (dt_yOff ?o)) (unat (dt_m ?o)) (unat (dt_d ?o)) (day_number dt)"
    using of_unixtime_date[of "unixtime pgm dt"] unfolding n p .
  from civil_day_unique[OF this calendar_date_civil[OF assms]]
  have "dt_yOff ?o = dt_yOff dt" "dt_m ?o = dt_m dt" "dt_d ?o = dt_d dt"
    by (simp_all add: word_unat_eq_iff)
  with t show ?thesis by (intro DateTime.equality) simp_all
qed

lemma of_unixtime_calendar:
  assumes "unat (dt_yOff (DateTime_of_unixtime T)) < 100"
  shows "calendar_date (DateTime_of_unixtime T)"
proof -
  let ?o = "DateTime_of_unixtime T"
  note c = civil_dayD[OF of_unixtime_date[of T]]
  have "unat (dt_d ?o) \<le> days_in_month (2000 + unat (dt_yOff ?o)) (unat (dt_m ?o))"
    using c assms by (simp add: days_in_month_mlen)
  then show ?thesis
    unfolding calendar_date_def using c(1-3) assms of_unixtime_time[of T] by simp
qed

lemma isValid_iff: "isValid pgm dt \<longleftrightarrow> calendar_date dt"
proof
  assume v: "isValid pgm dt"
  then have y: "unat (dt_yOff dt) < 100"
    by (simp add: isValid_def word_le_nat_alt split: if_splits)
  from v have "DateTime_of_unixtime (unixtime pgm dt) = dt"
    by (intro DateTime.equality) (simp_all add: isValid_def Let_def split: if_splits)
  with of_unixtime_calendar[of "unixtime pgm dt"] y show "calendar_date dt" by simp
next
  assume c: "calendar_date dt"
  then have "\<not> 100 \<le> dt_yOff dt" by (simp add: calendar_date_def word_le_nat_alt)
  then show "isValid pgm dt" using roundtrip[OF c, of pgm] by (simp add: isValid_def)
qed

lemma year_of: "unat (ucast (yo :: 8 word) + 2000 :: 16 word) = unat yo + 2000"
proof -
  have "unat yo < 256" using unsigned_less[of yo, where 'a=nat] by simp
  then show ?thesis by (simp add: unat_word_ariths unat_ucast_mod)
qed

lemma op_less_nat:
  "op_less a b \<longleftrightarrow>
     (unat (dt_yOff a) < unat (dt_yOff b) \<or>
      (dt_yOff a = dt_yOff b \<and>
       (unat (dt_m a) < unat (dt_m b) \<or>
        (dt_m a = dt_m b \<and>
         (unat (dt_d a) < unat (dt_d b) \<or>
          (dt_d a = dt_d b \<and>
           (unat (dt_hh a) < unat (dt_hh b) \<or>
            (dt_hh a = dt_hh b \<and>
             (unat (dt_mm a) < unat (dt_mm b) \<or>
              (dt_mm a = dt_mm b \<and> unat (dt_ss a) < unat (dt_ss b)))))))))))"
proof -
  have y: "year b = ucast (dt_yOff b) + 2000" by (simp add: year_def)
  have 1: "(ucast (dt_yOff a) + 2000 < year b) = (unat (dt_yOff a) < unat (dt_yOff b))"
    unfolding y by (simp add: word_less_nat_alt year_of)
  have 2: "(ucast (dt_yOff a) + 2000 = year b) = (dt_yOff a = dt_yOff b)"
    unfolding y by (simp add: word_unat_eq_iff year_of)
  show ?thesis
    unfolding op_less_def 1 2
    by (simp add: month_def day_def hour_def minute_def second_def word_less_nat_alt)
qed

lemma op_eq_fields: "op_eq a b \<longleftrightarrow> a = b"
proof -
  have y: "year b = ucast (dt_yOff b) + 2000" by (simp add: year_def)
  have 2: "(year b = ucast (dt_yOff a) + 2000) = (dt_yOff a = dt_yOff b)"
    unfolding y by (auto simp add: word_unat_eq_iff year_of)
  show ?thesis
    unfolding op_eq_def 2
    by (auto simp add: month_def day_def hour_def minute_def second_def intro: DateTime.equality)
qed

lemma op_less_word:
  "op_less a b \<longleftrightarrow>
     (dt_yOff a < dt_yOff b \<or>
      (dt_yOff a = dt_yOff b \<and>
       (dt_m a < dt_m b \<or>
        (dt_m a = dt_m b \<and>
         (dt_d a < dt_d b \<or>
          (dt_d a = dt_d b \<and>
           (dt_hh a < dt_hh b \<or>
            (dt_hh a = dt_hh b \<and>
             (dt_mm a < dt_mm b \<or>
              (dt_mm a = dt_mm b \<and> dt_ss a < dt_ss b))))))))))"
  unfolding op_less_nat by (simp only: word_less_nat_alt)

lemma op_eq_word:
  "op_eq a b \<longleftrightarrow>
     (dt_yOff a = dt_yOff b \<and> (dt_m a = dt_m b \<and> (dt_d a = dt_d b \<and>
       (dt_hh a = dt_hh b \<and> (dt_mm a = dt_mm b \<and> dt_ss a = dt_ss b)))))"
  unfolding op_eq_fields by (auto intro: DateTime.equality)

lemma tri_step:
  fixes x y :: "'a::linorder"
  assumes "(A \<or> B \<or> C) \<and> \<not> (A \<and> B) \<and> \<not> (A \<and> C) \<and> \<not> (B \<and> C)"
  shows "((x < y \<or> (x = y \<and> A)) \<or> (x = y \<and> B) \<or> (y < x \<or> (y = x \<and> C)))
       \<and> \<not> ((x < y \<or> (x = y \<and> A)) \<and> (x = y \<and> B))
       \<and> \<not> ((x < y \<or> (x = y \<and> A)) \<and> (y < x \<or> (y = x \<and> C)))
       \<and> \<not> ((x = y \<and> B) \<and> (y < x \<or> (y = x \<and> C)))"
  using assms by (cases x y rule: linorder_cases) auto

lemma tri_base:
  fixes x y :: "'a::linorder"
  shows "(x < y \<or> x = y \<or> y < x) \<and> \<not> (x < y \<and> x = y) \<and> \<not> (x < y \<and> y < x)
       \<and> \<not> (x = y \<and> y < x)"
  by (cases x y rule: linorder_cases) auto

lemma op_trichotomy:
  "(op_less a b \<or> op_eq a b \<or> op_greater a b)
   \<and> \<not> (op_less a b \<and> op_eq a b) \<and> \<not> (op_less a b \<and> op_greater a b)
   \<and> \<not> (op_eq a b \<and> op_greater a b)"
  unfolding op_greater_def op_eq_word op_less_word[of a b] op_less_word[of b a]
  by (intro tri_step tri_base)

lemma civil_day_in_year:
  assumes "civil_day y k d n"
  shows "days_before_year y \<le> n" "n < days_before_year y + year_length y"
proof -
  note c = civil_dayD[OF assms]
  have "days_before_month (y mod 4 = 0) k + month_length (y mod 4 = 0) k \<le> 365 + (if y mod 4 = 0 then 1 else 0)"
    using days_before_month_le[OF c(1,2)] .
  then show "days_before_year y \<le> n" "n < days_before_year y + year_length y" using c by (simp_all add: year_length_def)
qed

lemma day_number_mono:
  assumes a: "calendar_date a" and b: "calendar_date b"
    and lt: "unat (dt_yOff a) < unat (dt_yOff b) \<or>
      (dt_yOff a = dt_yOff b \<and>
       (unat (dt_m a) < unat (dt_m b) \<or> (dt_m a = dt_m b \<and> unat (dt_d a) < unat (dt_d b))))"
  shows "day_number a < day_number b"
proof -
  note ca = calendar_date_civil[OF a] and cb = calendar_date_civil[OF b]
  note da = civil_dayD[OF ca] and db = civil_dayD[OF cb]
  consider (y) "unat (dt_yOff a) < unat (dt_yOff b)"
    | (m) "dt_yOff a = dt_yOff b" "unat (dt_m a) < unat (dt_m b)"
    | (d) "dt_yOff a = dt_yOff b" "dt_m a = dt_m b" "unat (dt_d a) < unat (dt_d b)"
    using lt by blast
  then show ?thesis
  proof cases
    case y
    from days_before_year_mono[OF y] civil_day_in_year[OF ca] civil_day_in_year[OF cb] show ?thesis by linarith
  next
    case m
    from days_before_month_mono[OF da(1) m(2), of "unat (dt_yOff a) mod 4 = 0"] da db m(1)
    show ?thesis by simp
  next
    case d
    with da db show ?thesis by simp
  qed
qed

lemma second_number_mono:
  assumes a: "calendar_date a" and b: "calendar_date b" and lt: "op_less a b"
  shows "second_number a < second_number b"
proof -
  have ta: "unat (dt_hh a) < 24" "unat (dt_mm a) < 60" "unat (dt_ss a) < 60"
    and tb: "unat (dt_hh b) < 24" "unat (dt_mm b) < 60" "unat (dt_ss b) < 60"
    using a b by (simp_all add: calendar_date_def)
  define ha ma sa hb mb sb where "ha = unat (dt_hh a)" and "ma = unat (dt_mm a)"
    and "sa = unat (dt_ss a)" and "hb = unat (dt_hh b)" and "mb = unat (dt_mm b)"
    and "sb = unat (dt_ss b)"
  note defs = ha_def ma_def sa_def hb_def mb_def sb_def
  have sn: "second_number a = 86400 * day_number a + 3600 * ha + 60 * ma + sa"
    "second_number b = 86400 * day_number b + 3600 * hb + 60 * mb + sb"
    by (simp_all add: second_number_def defs)
  have bd: "ha < 24" "ma < 60" "sa < 60" "hb < 24" "mb < 60" "sb < 60"
    using ta tb by (simp_all add: defs)
  consider (date) "unat (dt_yOff a) < unat (dt_yOff b) \<or>
      (dt_yOff a = dt_yOff b \<and>
       (unat (dt_m a) < unat (dt_m b) \<or> (dt_m a = dt_m b \<and> unat (dt_d a) < unat (dt_d b))))"
    | (time) "dt_yOff a = dt_yOff b" "dt_m a = dt_m b" "dt_d a = dt_d b"
       "ha < hb \<or> (ha = hb \<and> (ma < mb \<or> (ma = mb \<and> sa < sb)))"
    using lt unfolding op_less_nat defs by (auto simp: word_unat_eq_iff)
  then show ?thesis
  proof cases
    case date
    from day_number_mono[OF a b date] have "day_number a + 1 \<le> day_number b" by simp
    then show ?thesis unfolding sn using bd by linarith
  next
    case time
    then have "day_number a = day_number b" by (simp add: day_number_def)
    then show ?thesis unfolding sn using bd time(4) by linarith
  qed
qed

lemma components_calendar:
  fixes y :: "16 word" and m d h mi s :: "8 word"
  assumes "2000 \<le> y" "y \<le> 2099" "1 \<le> m" "m \<le> 12" "1 \<le> d"
    "unat d \<le> days_in_month (unat y) (unat m)" "h < 24" "mi < 60" "s < 60"
  shows "calendar_date (DateTime_of_components y m d h mi s)"
    and "year (DateTime_of_components y m d h mi s) = y"
proof -
  have uy: "2000 \<le> unat y" "unat y \<le> 2099" using assms(1,2) by (simp_all add: word_le_nat_alt)
  then have "unat (y - 2000) = unat y - 2000" by (simp add: unat_sub word_le_nat_alt)
  then have yo: "unat (ucast (y - 2000) :: 8 word) = unat y - 2000"
    using uy by (simp add: unat_ucast_mod)
  then have e: "2000 + unat (ucast (y - 2000) :: 8 word) = unat y" using uy by simp
  show "calendar_date (DateTime_of_components y m d h mi s)"
    unfolding calendar_date_def DateTime_of_components_def
    using assms uy yo by (simp add: word_le_nat_alt word_less_nat_alt e)
  have "unat (2000 + ucast (ucast (y - 2000) :: 8 word) :: 16 word) = unat y"
    using year_of[of "ucast (y - 2000)"] yo uy by (simp add: add.commute)
  then show "year (DateTime_of_components y m d h mi s) = y"
    using assms(1) by (simp add: year_def DateTime_of_components_def word_unat_eq_iff)
qed

lemma epoch_reconstruct:
  "DateTime_of_unixtime 946684800
     = \<lparr>dt_yOff = 0, dt_m = 1, dt_d = 1, dt_hh = 0, dt_mm = 0, dt_ss = 0\<rparr>"
proof -
  have y: "year_loop 0 0 = (0, 1, 0)" by (subst year_loop.simps) simp
  have m: "month_loop 1 1 0 = (1, 0)" by (subst month_loop.simps) (simp add: daysInMonth_def)
  show ?thesis
    by (simp add: DateTime_of_unixtime_def SECONDS_FROM_1970_TO_2000_def y m)
qed

section \<open>Truncating division\<close>

lemma sdiv_abs: "0 < b \<Longrightarrow> \<bar>(k::int) sdiv b\<bar> = \<bar>k\<bar> div b"
  by (cases "k < 0") (simp_all add: signed_divide_int_def sgn_if pos_imp_zdiv_nonneg_iff)

lemma sdiv_sgn: "0 < b \<Longrightarrow> (k::int) sdiv b = sgn k * (\<bar>k\<bar> div b)"
  by (simp add: signed_divide_int_def)

lemma sdiv_sdiv:
  assumes "0 < a" "0 < b"
  shows "((k::int) sdiv a) sdiv b = k sdiv (a * b)"
proof (cases "0 \<le> k")
  case True
  then have "k sdiv a = k div a" using assms by (simp add: sdiv_sgn sgn_if)
  moreover have "0 \<le> k div a" using True assms by (simp add: pos_imp_zdiv_nonneg_iff)
  ultimately show ?thesis using True assms
    by (simp add: sdiv_sgn sgn_if zdiv_zmult2_eq)
next
  case False
  then have k: "k < 0" by simp
  have 1: "k sdiv a = - ((-k) div a)" using k assms by (simp add: sdiv_sgn sgn_if)
  have 2: "0 \<le> (-k) div a" using k assms by (simp add: pos_imp_zdiv_nonneg_iff)
  have "(k sdiv a) sdiv b = - ((-k) div a div b)"
    unfolding 1 using 2 assms by (simp add: sdiv_sgn sgn_if)
  also have "\<dots> = - ((-k) div (a * b))" using assms by (simp add: zdiv_zmult2_eq)
  also have "\<dots> = k sdiv (a * b)" using k assms by (simp add: sdiv_sgn sgn_if)
  finally show ?thesis .
qed

lemma recompose_int:
  "(k::int) sdiv 86400 * 86400 + (k sdiv 3600 smod 24) * 3600
     + (k sdiv 60 smod 60) * 60 + k smod 60 = k"
proof -
  have a: "k sdiv 60 * 60 + k smod 60 = k" by (rule sdiv_mult_smod_eq)
  have b: "(k sdiv 60) sdiv 60 * 60 + (k sdiv 60) smod 60 = k sdiv 60"
    by (rule sdiv_mult_smod_eq)
  have c: "(k sdiv 3600) sdiv 24 * 24 + (k sdiv 3600) smod 24 = k sdiv 3600"
    by (rule sdiv_mult_smod_eq)
  have d: "(k sdiv 60) sdiv 60 = k sdiv 3600" using sdiv_sdiv[of 60 60 k] by simp
  have e: "(k sdiv 3600) sdiv 24 = k sdiv 86400" using sdiv_sdiv[of 3600 24 k] by simp
  from b d have b': "k sdiv 3600 * 60 + (k sdiv 60) smod 60 = k sdiv 60" by simp
  from c e have c': "k sdiv 86400 * 24 + (k sdiv 3600) smod 24 = k sdiv 3600" by simp
  from a b' c' show ?thesis by linarith
qed

lemma sint_bounds32: "- 2147483648 \<le> sint (t::32 word) \<and> sint t < 2147483648"
  using sint_ge[of t] sint_lt[of t] by simp

lemma smod_bound: "0 < b \<Longrightarrow> \<bar>(k::int) smod b\<bar> < b"
  by (cases "k < 0") (simp_all add: signed_modulo_int_def sgn_if)

lemma sint_days: "sint (days ts) = sint (ts_seconds ts) sdiv 86400"
proof -
  let ?k = "sint (ts_seconds ts)"
  have "\<bar>?k\<bar> \<le> 2147483648" using sint_bounds32[of "ts_seconds ts"] by linarith
  then have "\<bar>?k\<bar> div 86400 \<le> 2147483648 div 86400" by (rule zdiv_mono1) simp
  then have "\<bar>?k sdiv 86400\<bar> \<le> 24855" using sdiv_abs[of 86400 ?k] by simp
  then have "- 32768 \<le> ?k sdiv 86400 \<and> ?k sdiv 86400 < 32768" by linarith
  then show ?thesis unfolding days_def
    by (simp add: sint_sbintrunc' signed_take_bit_int_eq_self)
qed

lemma sint_small8: "\<bar>k\<bar> < 128 \<Longrightarrow> sint (word_of_int k :: 8 word) = k"
  by (simp add: sint_sbintrunc' signed_take_bit_int_eq_self)

lemma sint_hours: "sint (hours ts) = sint (ts_seconds ts) sdiv 3600 smod 24"
  unfolding hours_def using smod_bound[of 24 "sint (ts_seconds ts) sdiv 3600"]
  by (intro sint_small8) simp

lemma sint_minutes: "sint (minutes ts) = sint (ts_seconds ts) sdiv 60 smod 60"
  unfolding minutes_def using smod_bound[of 60 "sint (ts_seconds ts) sdiv 60"]
  by (intro sint_small8) simp

lemma sint_seconds: "sint (seconds ts) = sint (ts_seconds ts) smod 60"
  unfolding seconds_def using smod_bound[of 60 "sint (ts_seconds ts)"]
  by (intro sint_small8) simp

lemma sdiv_nonpos: "0 < b \<Longrightarrow> k \<le> 0 \<Longrightarrow> (k::int) sdiv b \<le> 0"
  by (simp add: sdiv_sgn sgn_if pos_imp_zdiv_nonneg_iff)

lemma smod_nonpos: "0 < b \<Longrightarrow> k \<le> 0 \<Longrightarrow> (k::int) smod b \<le> 0"
  by (simp add: signed_modulo_int_def sgn_if)

lemma dhms_total:
  fixes d :: "16 word" and h m s :: "8 word"
  assumes "- 2147483648 \<le> sint d * 86400 + sint h * 3600 + sint m * 60 + sint s"
      and "sint d * 86400 + sint h * 3600 + sint m * 60 + sint s < 2147483648"
  shows "sint (totalseconds (TimeSpan_of_dhms d h m s))
           = sint d * 86400 + sint h * 3600 + sint m * 60 + sint s"
proof -
  let ?v = "sint d * 86400 + sint h * 3600 + sint m * 60 + sint s"
  have "ts_seconds (TimeSpan_of_dhms d h m s) = word_of_int ?v"
    by (simp add: TimeSpan_of_dhms_def)
  then have "sint (totalseconds (TimeSpan_of_dhms d h m s)) = signed_take_bit 31 ?v"
    by (simp only: totalseconds_def sint_sbintrunc') simp
  also have "\<dots> = ?v" using assms by (simp add: signed_take_bit_int_eq_self)
  finally show ?thesis .
qed

section \<open>Reconstruction is the inverse of unixtime\<close>






section \<open>Strings\<close>

lemma strlen_le: "strlen s \<le> length s"
  by (simp add: strlen_def length_takeWhile_le)

lemma strlen_template: "strlen ''2000-01-01T00:00:00'' = 19"
  by (simp add: strlen_def NUL_def)

lemma strlen_Cons: "c \<noteq> NUL \<Longrightarrow> strlen (c # s) = Suc (strlen s)"
  by (simp add: strlen_def)

lemma memcpy_keeps:
  assumes "n \<le> length src" "n \<le> k" "n \<le> length dst"
  shows "memcpy dst src n ! k = dst ! k"
proof -
  have "length (take n src) = n" using assms(1) by simp
  then have "memcpy dst src n ! k = drop n dst ! (k - n)"
    using assms(2) by (simp add: memcpy_def nth_append)
  also have "\<dots> = dst ! (n + (k - n))" using assms(3) by (rule nth_drop)
  finally show ?thesis using assms(2) by simp
qed

lemma memcpy_copies:
  "n \<le> length src \<Longrightarrow> k < n \<Longrightarrow> memcpy dst src n ! k = src ! k"
  by (simp add: memcpy_def nth_append min_def)

lemma conv2d_cong: "p ! k = q ! k \<Longrightarrow> p ! (k + 1) = q ! (k + 1) \<Longrightarrow> conv2d p k = conv2d q k"
  by (simp add: conv2d_def)

lemma iso_field_kept:
  assumes "strlen s \<le> k" "k + 1 < 19"
  shows "conv2d (memcpy ''2000-01-01T00:00:00'' s (min (strlen ''2000-01-01T00:00:00'') (strlen s))) k
       = conv2d ''2000-01-01T00:00:00'' k"
proof -
  let ?n = "min (strlen ''2000-01-01T00:00:00'') (strlen s)"
  have n: "?n \<le> length s" "?n \<le> k" "?n \<le> k + 1" using assms strlen_le[of s] by simp_all
  have l: "?n \<le> length ''2000-01-01T00:00:00''" by (simp add: strlen_template)
  show ?thesis
    by (rule conv2d_cong) (rule memcpy_keeps[OF n(1) n(2) l], rule memcpy_keeps[OF n(1) n(3) l])
qed

lemma conv2d_drop2: "2 \<le> k \<Longrightarrow> conv2d (c # c' # xs) k = conv2d xs (k - 2)"
proof -
  assume "2 \<le> k"
  define i where "i = k - 2"
  have k: "k = Suc (Suc i)" using \<open>2 \<le> k\<close> by (simp add: i_def)
  show ?thesis unfolding k by (simp add: conv2d_def)
qed

lemma iso_ignores_century:
  assumes "a \<noteq> NUL" "b \<noteq> NUL" "a' \<noteq> NUL" "b' \<noteq> NUL"
  shows "DateTime_of_iso8601 (a # b # s) = DateTime_of_iso8601 (a' # b' # s)"
proof -
  define n where "n = min 19 (Suc (Suc (strlen s)))"
  have l: "strlen (a # b # s) = Suc (Suc (strlen s))" "strlen (a' # b' # s) = Suc (Suc (strlen s))"
    using assms by (simp_all add: strlen_Cons)
  define j where "j = n - 2"
  have "2 \<le> n" by (simp add: n_def)
  then have j: "n = Suc (Suc j)" by (simp add: j_def)
  have r: "memcpy ''2000-01-01T00:00:00'' (c # c' # s) n
         = c # c' # (take j s @ drop n ''2000-01-01T00:00:00'')" for c c'
    unfolding j memcpy_def by simp
  show ?thesis
    unfolding DateTime_of_iso8601_def Let_def strlen_template l n_def[symmetric] r
    by (simp add: conv2d_drop2)
qed


section \<open>The formatter, step by step\<close>

lemma loop_stop:
  "strlen b \<noteq> 0 \<Longrightarrow> \<not> i < strlen b - 1 \<Longrightarrow> toString_loop pgm dt ap hr pm i b = Some b"
  by (subst toString_loop.simps) simp

lemma loop_step:
  "strlen b \<noteq> 0 \<Longrightarrow> i < strlen b - 1 \<Longrightarrow>
     toString_loop pgm dt ap hr pm i b
       = toString_loop pgm dt ap hr pm (i + 1) (toString_body pgm dt ap hr pm i b)"
  by (subst toString_loop.simps) simp

lemma loop_empty: "strlen b = 0 \<Longrightarrow> toString_loop pgm dt ap hr pm i b = None"
  by (subst toString_loop.simps) simp

lemma step_lengths [simp]:
  "length (step_hh dt ap hr i b) = length b"
  "length (step_mm dt i b) = length b"
  "length (step_ss dt i b) = length b"
  "length (step_D pgm dt i b) = length b"
  "length (step_M pgm dt i b) = length b"
  "length (step_Y dt i b) = length b"
  "length (step_AP pm i b) = length b"
  by (simp_all add: step_hh_def step_mm_def step_ss_def step_D_def step_M_def step_Y_def
      step_AP_def Let_def)

lemma body_length [simp]: "length (toString_body pgm dt ap hr pm i b) = length b"
  unfolding toString_body_def by (simp only: step_lengths)

lemma step_takes:
  "take i (step_hh dt ap hr i b) = take i b"
  "take i (step_mm dt i b) = take i b"
  "take i (step_ss dt i b) = take i b"
  "take i (step_D pgm dt i b) = take i b"
  "take i (step_M pgm dt i b) = take i b"
  "take i (step_Y dt i b) = take i b"
  "take i (step_AP pm i b) = take i b"
  by (simp_all add: step_hh_def step_mm_def step_ss_def step_D_def step_M_def step_Y_def
      step_AP_def Let_def)

lemma body_take: "take i (toString_body pgm dt ap hr pm i b) = take i b"
  unfolding toString_body_def by (simp only: step_takes)

lemma step_skip:
  assumes "\<not> token_start (char_at b i)"
  shows "step_hh dt ap hr i b = b" "step_mm dt i b = b" "step_ss dt i b = b"
    "step_D pgm dt i b = b" "step_M pgm dt i b = b" "step_Y dt i b = b" "step_AP pm i b = b"
  using assms
  by (simp_all add: token_start_def step_hh_def step_mm_def step_ss_def step_D_def step_M_def
      step_Y_def step_AP_def)

lemma body_skip:
  assumes "\<not> token_start (char_at b i)"
  shows "toString_body pgm dt ap hr pm i b = b"
  unfolding toString_body_def by (simp only: step_skip[OF assms])


lemma of_char_digit: "unat v < 10 \<Longrightarrow> of_char (digit v) = (48 + unat v :: nat)"
  by (simp add: digit_def)

lemma digit_not_letter:
  assumes "unat v < 10"
  shows "digit v \<noteq> NUL" "digit v \<noteq> CHR ''h''" "digit v \<noteq> CHR ''m''" "digit v \<noteq> CHR ''s''"
    "digit v \<noteq> CHR ''D''" "digit v \<noteq> CHR ''M''" "digit v \<noteq> CHR ''Y''" "digit v \<noteq> CHR ''P''"
    "digit v \<noteq> CHR ''p''" "digit v \<noteq> CHR ''A''" "digit v \<noteq> CHR ''a''"
proof -
  have n: "of_char (digit v) < (58 :: nat)" using of_char_digit[OF assms] assms by simp
  have p: "of_char (digit v) \<ge> (48 :: nat)" using of_char_digit[OF assms] by simp
  show "digit v \<noteq> NUL" using p by (auto simp: NUL_def)
  show "digit v \<noteq> CHR ''h''" using n by auto
  show "digit v \<noteq> CHR ''m''" using n by auto
  show "digit v \<noteq> CHR ''s''" using n by auto
  show "digit v \<noteq> CHR ''D''" using n by auto
  show "digit v \<noteq> CHR ''M''" using n by auto
  show "digit v \<noteq> CHR ''Y''" using n by auto
  show "digit v \<noteq> CHR ''P''" using n by auto
  show "digit v \<noteq> CHR ''p''" using n by auto
  show "digit v \<noteq> CHR ''A''" using n by auto
  show "digit v \<noteq> CHR ''a''" using n by auto
qed

lemma digit_not_token: "unat v < 10 \<Longrightarrow> \<not> token_start (digit v)"
  using digit_not_letter[of v] by (simp add: token_start_def)

lemma unat_mod10: "unat ((v :: 8 word) mod 10) < 10"
  by (simp add: unat_mod)

lemma digit_div10_not_NUL: "digit ((v :: 8 word) div 10) \<noteq> NUL"
proof
  assume "digit (v div 10) = NUL"
  then have "of_char (digit (v div 10)) = (0 :: nat)" by (simp add: NUL_def)
  moreover have "unat (v div 10) < 26"
    using unsigned_less[of v, where 'a=nat] by (simp add: unat_div)
  ultimately show False by (simp add: digit_def)
qed

lemma step_second_digit:
  assumes "char_at b (i + 1) = digit v" "unat v < 10"
  shows "step_mm dt i b = b" "step_ss dt i b = b"
    "step_D pgm dt i b = b" "step_M pgm dt i b = b" "step_Y dt i b = b" "step_AP pm i b = b"
  using digit_not_letter[OF assms(2)] assms(1)
  by (simp_all add: step_mm_def step_ss_def step_D_def step_M_def step_Y_def step_AP_def)

lemma char_at_nth: "k < length b \<Longrightarrow> char_at b k = b ! k"
  by (simp add: char_at_def)

lemma char_at_not_NUL: "char_at b k \<noteq> NUL \<Longrightarrow> k < length b"
  by (auto simp: char_at_def split: if_splits)

lemma body_hh:
  assumes "char_at b i = CHR ''h''" "char_at b (i + 1) = CHR ''h''"
  shows "toString_body pgm dt ap hr pm i b
           = b[i := digit ((if ap then hr else dt_hh dt) div 10),
               i + 1 := digit ((if ap then hr else dt_hh dt) mod 10)]"
proof -
  let ?H = "if ap then hr else dt_hh dt"
  let ?b1 = "b[i := digit (?H div 10), i + 1 := digit (?H mod 10)]"
  have "char_at b (i + 1) \<noteq> NUL" using assms(2) by (simp add: NUL_def)
  then have l: "i + 1 < length b" by (rule char_at_not_NUL)
  have s: "step_hh dt ap hr i b = ?b1" using assms by (simp add: step_hh_def)
  have a: "char_at ?b1 (i + 1) = digit (?H mod 10)" using l by (simp add: char_at_def)
  note r = step_second_digit[OF a unat_mod10]
  show ?thesis unfolding toString_body_def s by (simp only: r)
qed

lemma strlen_pos: "b \<noteq> [] \<Longrightarrow> hd b \<noteq> NUL \<Longrightarrow> strlen b \<noteq> 0"
  by (cases b) (simp_all add: strlen_def)

lemma loop_returns:
  "1 \<le> i \<Longrightarrow> b \<noteq> [] \<Longrightarrow> hd b \<noteq> NUL \<Longrightarrow>
     \<exists>r. toString_loop pgm dt ap hr pm i b = Some r \<and> length r = length b \<and> take i r = take i b"
proof (induction pgm dt ap hr pm i b rule: toString_loop.induct)
  case (1 pgm dt ap hr pm i b)
  have n0: "strlen b \<noteq> 0" using "1.prems" by (intro strlen_pos)
  show ?case
  proof (cases "i < strlen b - 1")
    case False
    then show ?thesis using loop_stop[OF n0 False] by simp
  next
    case True
    let ?b' = "toString_body pgm dt ap hr pm i b"
    have ne: "?b' \<noteq> []" using "1.prems"(2) by (metis body_length length_0_conv)
    have "take 1 ?b' = take 1 b"
      using body_take[of i pgm dt ap hr pm b] "1.prems"(1)
      by (metis min.absorb1 take_take)
    then have hd: "hd ?b' \<noteq> NUL" using "1.prems"(2,3) ne by (cases b; cases ?b') simp_all
    from "1.IH"[OF n0 True _ ne hd]
    obtain r where r: "toString_loop pgm dt ap hr pm (i + 1) ?b' = Some r"
      "length r = length ?b'" "take (i + 1) r = take (i + 1) ?b'"
      by auto
    have "take i r = take i ?b'" using r(3) by (metis le_add1 min.absorb1 take_take)
    then show ?thesis using r loop_step[OF n0 True, of pgm dt ap hr pm] body_take[of i pgm dt ap hr pm b]
      by simp
  qed
qed

lemma strlen_prefix:
  assumes "\<forall>c \<in> set pre. c \<noteq> NUL" "x \<noteq> NUL" "y \<noteq> NUL"
  shows "length pre + 2 \<le> strlen (pre @ x # y # post)"
proof -
  have "takeWhile (\<lambda>c. c \<noteq> NUL) (pre @ x # y # post)
      = pre @ x # y # takeWhile (\<lambda>c. c \<noteq> NUL) post"
    using assms by (simp add: takeWhile_append2)
  then show ?thesis by (simp add: strlen_def)
qed

lemma loop_skip_prefix:
  assumes pre: "\<forall>c \<in> set pre. \<not> token_start c \<and> c \<noteq> NUL" and xy: "x \<noteq> NUL" "y \<noteq> NUL"
  shows "i \<le> length pre \<Longrightarrow>
     toString_loop pgm dt ap hr pm i (pre @ x # y # post)
       = toString_loop pgm dt ap hr pm (length pre) (pre @ x # y # post)"
proof (induction "length pre - i" arbitrary: i)
  case 0
  then show ?case by simp
next
  case (Suc k)
  let ?b = "pre @ x # y # post"
  have i: "i < length pre" using Suc.hyps(2) by simp
  have sl: "length pre + 2 \<le> strlen ?b" using pre xy by (intro strlen_prefix) simp_all
  then have n0: "strlen ?b \<noteq> 0" and lt: "i < strlen ?b - 1" using i by simp_all
  have "char_at ?b i = pre ! i" using i by (simp add: char_at_def nth_append)
  then have "\<not> token_start (char_at ?b i)" using pre i by simp
  then have "toString_body pgm dt ap hr pm i ?b = ?b" by (rule body_skip)
  then have "toString_loop pgm dt ap hr pm i ?b = toString_loop pgm dt ap hr pm (i + 1) ?b"
    using loop_step[OF n0 lt, of pgm dt ap hr pm] by simp
  also have "\<dots> = toString_loop pgm dt ap hr pm (length pre) ?b"
    using Suc.hyps(1)[of "i + 1"] Suc.hyps(2) i by simp
  finally show ?case .
qed

lemma loop_hh:
  assumes pre: "\<forall>c \<in> set pre. \<not> token_start c \<and> c \<noteq> NUL"
  shows "\<exists>rest. length rest = length post
     \<and> toString_loop pgm dt ap hr pm 0 (pre @ ''hh'' @ post)
         = Some (pre @ [digit ((if ap then hr else dt_hh dt) div 10),
                        digit ((if ap then hr else dt_hh dt) mod 10)] @ rest)"
proof -
  define H where "H = (if ap then hr else dt_hh dt)"
  let ?p = "length pre"
  let ?b = "pre @ CHR ''h'' # CHR ''h'' # post"
  let ?d1 = "digit (H div 10)" and ?d2 = "digit (H mod 10)"
  let ?b1 = "pre @ ?d1 # ?d2 # post"
  have hN: "CHR ''h'' \<noteq> NUL" by (simp add: NUL_def)
  have d1: "?d1 \<noteq> NUL" by (rule digit_div10_not_NUL)
  have d2: "?d2 \<noteq> NUL" "\<not> token_start ?d2"
    using digit_not_letter(1)[OF unat_mod10] digit_not_token[OF unat_mod10] by simp_all
  have preN: "\<forall>c \<in> set pre. c \<noteq> NUL" using pre by simp
  have 0: "toString_loop pgm dt ap hr pm 0 ?b = toString_loop pgm dt ap hr pm ?p ?b"
    using loop_skip_prefix[OF pre hN hN, of 0] by simp
  have sl: "?p + 2 \<le> strlen ?b" using preN hN by (intro strlen_prefix) simp_all
  have a: "char_at ?b ?p = CHR ''h''" "char_at ?b (?p + 1) = CHR ''h''"
    by (simp_all add: char_at_def nth_append)
  have bd: "toString_body pgm dt ap hr pm ?p ?b = ?b1"
    unfolding body_hh[OF a] H_def[symmetric] by (simp add: list_update_append)
  have 1: "toString_loop pgm dt ap hr pm ?p ?b = toString_loop pgm dt ap hr pm (?p + 1) ?b1"
    using loop_step[of ?b ?p pgm dt ap hr pm] sl bd by simp
  have sl1: "?p + 2 \<le> strlen ?b1" using preN d1 d2 by (intro strlen_prefix) simp_all
  have ne: "?b1 \<noteq> []" by simp
  have hd1: "hd ?b1 \<noteq> NUL" using preN d1 by (cases pre) simp_all
  have "char_at ?b1 (?p + 1) = ?d2" by (simp add: char_at_def nth_append)
  then have sk: "toString_body pgm dt ap hr pm (?p + 1) ?b1 = ?b1"
    using d2(2) by (intro body_skip) simp
  have "\<exists>r. toString_loop pgm dt ap hr pm (?p + 1) ?b1 = Some r \<and> length r = length ?b1
      \<and> take (?p + 2) r = take (?p + 2) ?b1"
  proof (cases "?p + 1 < strlen ?b1 - 1")
    case False
    then show ?thesis using loop_stop[of ?b1 "?p + 1" pgm dt ap hr pm] sl1 by simp
  next
    case True
    have "toString_loop pgm dt ap hr pm (?p + 1) ?b1 = toString_loop pgm dt ap hr pm (?p + 2) ?b1"
      using loop_step[of ?b1 "?p + 1" pgm dt ap hr pm] sl1 True sk by simp
    then show ?thesis
      using loop_returns[of "?p + 2" ?b1 pgm dt ap hr pm, OF _ ne hd1] by simp
  qed
  then obtain r where r: "toString_loop pgm dt ap hr pm (?p + 1) ?b1 = Some r"
    "length r = length ?b1" "take (?p + 2) r = take (?p + 2) ?b1"
    by blast
  have t: "take (?p + 2) ?b1 = pre @ [?d1, ?d2]" by simp
  have "r = take (?p + 2) r @ drop (?p + 2) r" by simp
  then have e: "r = pre @ [?d1, ?d2] @ drop (?p + 2) r" unfolding r(3) t by simp
  have "length (drop (?p + 2) r) = length post" using r(2) by simp
  then show ?thesis
    unfolding H_def[symmetric] using 0 1 r(1) e by (intro exI[of _ "drop (?p + 2) r"]) simp
qed

lemma hourReformatted_twelveHour:
  "(if dt_hh dt = 0 then (12, False)
    else if dt_hh dt = 12 then (12, True)
    else if dt_hh dt < 12 then (dt_hh dt, False)
    else (dt_hh dt - 12, True)) = (twelveHour dt, 12 \<le> dt_hh dt)"
  by (auto simp: twelveHour_def word_less_nat_alt word_le_nat_alt word_unat_eq_iff)

lemma twelveHour_range: "dt_hh dt < 24 \<Longrightarrow> 1 \<le> twelveHour dt \<and> twelveHour dt \<le> 12"
proof -
  assume "dt_hh dt < 24"
  then have h: "unat (dt_hh dt) < 24" by (simp add: word_less_nat_alt)
  show ?thesis
  proof (cases "dt_hh dt = 0 \<or> dt_hh dt = 12")
    case True
    then show ?thesis by (auto simp: twelveHour_def)
  next
    case False
    then have ne: "unat (dt_hh dt) \<noteq> 0" "unat (dt_hh dt) \<noteq> 12"
      by (simp_all add: word_unat_eq_iff)
    show ?thesis
    proof (cases "12 < dt_hh dt")
      case True
      then have g: "12 < unat (dt_hh dt)" by (simp add: word_less_nat_alt)
      then have "unat (dt_hh dt - 12) = unat (dt_hh dt) - 12"
        by (simp add: unat_sub word_le_nat_alt)
      moreover have "1 \<le> unat (dt_hh dt) - 12 \<and> unat (dt_hh dt) - 12 \<le> 12"
        using g h by arith
      ultimately show ?thesis using False True
        by (simp add: twelveHour_def word_le_nat_alt)
    next
      case F: False
      then have "unat (dt_hh dt) \<le> 12" by (simp add: word_less_nat_alt)
      then show ?thesis using False F ne by (simp add: twelveHour_def word_le_nat_alt)
    qed
  qed
qed

subsection \<open>No step writes a NUL, and an \<open>h\<close> ahead of the scan stays\<close>

lemma dayOfTheWeek_less: "unat (dayOfTheWeek pgm dt) < 7"
proof -
  have "unat (of_nat (n mod 7) :: 8 word) = n mod 7" for n :: nat
    by (simp add: unat_of_nat)
  then show ?thesis by (simp add: dayOfTheWeek_def Let_def)
qed

lemma day_names_chars:
  assumes "w < 7"
  shows "day_names ! (3 * w) \<noteq> NUL" "day_names ! (3 * w + 1) \<noteq> NUL"
    "day_names ! (3 * w + 2) \<noteq> NUL" "day_names ! (3 * w + 2) \<noteq> CHR ''h''"
proof -
  from assms have "w = 0 \<or> w = 1 \<or> w = 2 \<or> w = 3 \<or> w = 4 \<or> w = 5 \<or> w = 6" by arith
  then show "day_names ! (3 * w) \<noteq> NUL" "day_names ! (3 * w + 1) \<noteq> NUL"
    "day_names ! (3 * w + 2) \<noteq> NUL" "day_names ! (3 * w + 2) \<noteq> CHR ''h''"
    by (auto simp: day_names_def NUL_def)
qed

lemma month_names_set: "\<forall>c \<in> set month_names. c \<noteq> NUL \<and> c \<noteq> CHR ''h''"
  by (simp add: month_names_def NUL_def)

lemma month_names_read:
  assumes "1 \<le> unat m" "unat m \<le> 12" "0 \<le> j" "j \<le> 2"
  shows "pgm_read_byte_month_names pgm (3 * (int (unat m) - 1) + j) \<noteq> NUL"
    and "pgm_read_byte_month_names pgm (3 * (int (unat m) - 1) + j) \<noteq> CHR ''h''"
proof -
  let ?k = "3 * (int (unat m) - 1) + j"
  have l: "length month_names = 36" by (simp add: month_names_def)
  define x where "x = int (unat m)"
  have "1 \<le> x" "x \<le> 12" unfolding x_def using assms(1,2) by linarith+
  then have "0 \<le> 3 * (x - 1) + j" "3 * (x - 1) + j < 36" using assms(3,4) by simp_all
  then have k: "0 \<le> ?k" "?k < 36" unfolding x_def .
  then have "nat ?k < length month_names" unfolding l by simp
  then have "month_names ! nat ?k \<in> set month_names" by (rule nth_mem)
  moreover have "pgm_read_byte_month_names pgm ?k = month_names ! nat ?k"
    unfolding pgm_read_byte_month_names_def l using k by simp
  ultimately show "pgm_read_byte_month_names pgm ?k \<noteq> NUL"
    and "pgm_read_byte_month_names pgm ?k \<noteq> CHR ''h''"
    using month_names_set by auto
qed

lemma upd_notin: "z \<notin> set b \<Longrightarrow> x \<noteq> z \<Longrightarrow> z \<notin> set (b[i := x])"
  using set_update_subset_insert[of b i x] by auto

lemma digit_mod10_not: "digit ((v :: 8 word) mod 10) \<noteq> NUL" "digit ((v :: 8 word) mod 10) \<noteq> CHR ''h''"
  using digit_not_letter[OF unat_mod10, of v] by simp_all

lemma step_hh_NUL: "NUL \<notin> set b \<Longrightarrow> NUL \<notin> set (step_hh dt ap hr i b)"
  by (simp add: step_hh_def upd_notin digit_mod10_not digit_div10_not_NUL)

lemma step_mm_NUL: "NUL \<notin> set b \<Longrightarrow> NUL \<notin> set (step_mm dt i b)"
  by (simp add: step_mm_def upd_notin digit_mod10_not digit_div10_not_NUL)

lemma step_ss_NUL: "NUL \<notin> set b \<Longrightarrow> NUL \<notin> set (step_ss dt i b)"
  by (simp add: step_ss_def upd_notin digit_mod10_not digit_div10_not_NUL)

lemma step_D_NUL: "NUL \<notin> set b \<Longrightarrow> NUL \<notin> set (step_D pgm dt i b)"
  using day_names_chars[OF dayOfTheWeek_less, of pgm dt]
  by (simp add: step_D_def Let_def upd_notin digit_mod10_not digit_div10_not_NUL)

lemma step_M_NUL:
  "1 \<le> unat (dt_m dt) \<Longrightarrow> unat (dt_m dt) \<le> 12 \<Longrightarrow> NUL \<notin> set b \<Longrightarrow> NUL \<notin> set (step_M pgm dt i b)"
  using month_names_read(1)[of "dt_m dt" 0 pgm] month_names_read(1)[of "dt_m dt" 1 pgm]
    month_names_read(1)[of "dt_m dt" 2 pgm]
  by (simp add: step_M_def Let_def upd_notin digit_mod10_not digit_div10_not_NUL)

lemma step_Y_NUL: "NUL \<notin> set b \<Longrightarrow> NUL \<notin> set (step_Y dt i b)"
proof -
  have c: "CHR ''2'' \<noteq> NUL" "CHR ''0'' \<noteq> NUL" by (simp_all add: NUL_def)
  show "NUL \<notin> set b \<Longrightarrow> NUL \<notin> set (step_Y dt i b)"
    by (simp add: step_Y_def upd_notin digit_mod10_not c)
qed

lemma step_AP_NUL: "NUL \<notin> set b \<Longrightarrow> NUL \<notin> set (step_AP pm i b)"
proof -
  have c: "CHR ''A'' \<noteq> NUL" "CHR ''P'' \<noteq> NUL" "CHR ''M'' \<noteq> NUL"
    "CHR ''a'' \<noteq> NUL" "CHR ''p'' \<noteq> NUL" "CHR ''m'' \<noteq> NUL"
    by (simp_all add: NUL_def)
  show "NUL \<notin> set b \<Longrightarrow> NUL \<notin> set (step_AP pm i b)"
    by (simp add: step_AP_def upd_notin c)
qed

lemma body_NUL:
  assumes "1 \<le> unat (dt_m dt)" "unat (dt_m dt) \<le> 12" "NUL \<notin> set b"
  shows "NUL \<notin> set (toString_body pgm dt ap hr pm i b)"
  unfolding toString_body_def
  by (intro step_AP_NUL step_Y_NUL step_M_NUL[OF assms(1,2)] step_D_NUL step_ss_NUL
      step_mm_NUL step_hh_NUL assms(3))


lemma keep_h_mm: "i < k \<Longrightarrow> k < length b \<Longrightarrow> b ! k = CHR ''h'' \<Longrightarrow> step_mm dt i b ! k = CHR ''h''"
  by (auto simp: step_mm_def char_at_def nth_list_update)

lemma keep_h_ss: "i < k \<Longrightarrow> k < length b \<Longrightarrow> b ! k = CHR ''h'' \<Longrightarrow> step_ss dt i b ! k = CHR ''h''"
  by (auto simp: step_ss_def char_at_def nth_list_update)

lemma keep_h_D: "i < k \<Longrightarrow> k < length b \<Longrightarrow> b ! k = CHR ''h'' \<Longrightarrow> step_D pgm dt i b ! k = CHR ''h''"
  by (auto simp: step_D_def Let_def char_at_def nth_list_update)

lemma keep_h_M: "i < k \<Longrightarrow> k < length b \<Longrightarrow> b ! k = CHR ''h'' \<Longrightarrow> step_M pgm dt i b ! k = CHR ''h''"
  by (auto simp: step_M_def Let_def char_at_def nth_list_update)

lemma keep_h_Y: "i < k \<Longrightarrow> k < length b \<Longrightarrow> b ! k = CHR ''h'' \<Longrightarrow> step_Y dt i b ! k = CHR ''h''"
  by (auto simp: step_Y_def char_at_def nth_list_update)

lemma keep_h_AP: "i < k \<Longrightarrow> k < length b \<Longrightarrow> b ! k = CHR ''h'' \<Longrightarrow> step_AP pm i b ! k = CHR ''h''"
  by (auto simp: step_AP_def char_at_def nth_list_update)

lemma keep_h_hh:
  "i < k \<Longrightarrow> k < length b \<Longrightarrow> b ! k = CHR ''h'' \<Longrightarrow> i + 2 \<le> k \<or> char_at b i \<noteq> CHR ''h'' \<Longrightarrow>
     step_hh dt ap hr i b ! k = CHR ''h''"
  by (auto simp: step_hh_def char_at_def nth_list_update)

lemma body_keeps_h:
  assumes "i < k" "k < length b" "b ! k = CHR ''h''" "i + 2 \<le> k \<or> char_at b i \<noteq> CHR ''h''"
  shows "toString_body pgm dt ap hr pm i b ! k = CHR ''h''"
proof -
  note l = step_lengths
  have 1: "step_hh dt ap hr i b ! k = CHR ''h''" using assms by (rule keep_h_hh)
  have 2: "step_mm dt i (step_hh dt ap hr i b) ! k = CHR ''h''"
    using assms(1,2) 1 by (intro keep_h_mm) (simp_all only: l)
  have 3: "step_ss dt i (step_mm dt i (step_hh dt ap hr i b)) ! k = CHR ''h''"
    using assms(1,2) 2 by (intro keep_h_ss) (simp_all only: l)
  have 4: "step_D pgm dt i (step_ss dt i (step_mm dt i (step_hh dt ap hr i b))) ! k = CHR ''h''"
    using assms(1,2) 3 by (intro keep_h_D) (simp_all only: l)
  have 5: "step_M pgm dt i (step_D pgm dt i (step_ss dt i (step_mm dt i
             (step_hh dt ap hr i b)))) ! k = CHR ''h''"
    using assms(1,2) 4 by (intro keep_h_M) (simp_all only: l)
  have 6: "step_Y dt i (step_M pgm dt i (step_D pgm dt i (step_ss dt i (step_mm dt i
             (step_hh dt ap hr i b))))) ! k = CHR ''h''"
    using assms(1,2) 5 by (intro keep_h_Y) (simp_all only: l)
  show ?thesis unfolding toString_body_def
    using assms(1,2) 6 by (intro keep_h_AP) (simp_all only: l)
qed

lemma no_h_hh: "i < k \<Longrightarrow> k < length b \<Longrightarrow> b ! k \<noteq> CHR ''h'' \<Longrightarrow> step_hh dt ap hr i b ! k \<noteq> CHR ''h''"
  using digit_mod10_not(2)
  by (auto simp: step_hh_def char_at_def nth_list_update)

lemma no_h_mm: "i < k \<Longrightarrow> k < length b \<Longrightarrow> b ! k \<noteq> CHR ''h'' \<Longrightarrow> step_mm dt i b ! k \<noteq> CHR ''h''"
  using digit_mod10_not(2)
  by (auto simp: step_mm_def char_at_def nth_list_update)

lemma no_h_ss: "i < k \<Longrightarrow> k < length b \<Longrightarrow> b ! k \<noteq> CHR ''h'' \<Longrightarrow> step_ss dt i b ! k \<noteq> CHR ''h''"
  using digit_mod10_not(2)
  by (auto simp: step_ss_def char_at_def nth_list_update)

lemma no_h_Y: "i < k \<Longrightarrow> k < length b \<Longrightarrow> b ! k \<noteq> CHR ''h'' \<Longrightarrow> step_Y dt i b ! k \<noteq> CHR ''h''"
  using digit_mod10_not(2)
  by (auto simp: step_Y_def char_at_def nth_list_update)

lemma no_h_AP: "i < k \<Longrightarrow> k < length b \<Longrightarrow> b ! k \<noteq> CHR ''h'' \<Longrightarrow> step_AP pm i b ! k \<noteq> CHR ''h''"
  by (auto simp: step_AP_def char_at_def nth_list_update)

lemma no_h_M:
  assumes "1 \<le> unat (dt_m dt)" "unat (dt_m dt) \<le> 12"
  shows "i < k \<Longrightarrow> k < length b \<Longrightarrow> b ! k \<noteq> CHR ''h'' \<Longrightarrow> step_M pgm dt i b ! k \<noteq> CHR ''h''"
  using month_names_read(2)[OF assms, of 1 pgm] month_names_read(2)[OF assms, of 2 pgm]
    digit_mod10_not(2)
  by (auto simp: step_M_def Let_def char_at_def nth_list_update)

lemma no_h_D:
  "i < k \<Longrightarrow> k < length b \<Longrightarrow> b ! k \<noteq> CHR ''h'' \<Longrightarrow>
     (k = i + 1 \<longrightarrow> char_at b (i + 2) \<noteq> CHR ''D'') \<Longrightarrow> step_D pgm dt i b ! k \<noteq> CHR ''h''"
  using day_names_chars(4)[OF dayOfTheWeek_less, of pgm dt] digit_mod10_not(2)
  by (auto simp: step_D_def Let_def char_at_def nth_list_update)

lemma far_hh: "char_at (step_hh dt ap hr i b) (i + 2) = char_at b (i + 2)"
  by (simp add: step_hh_def char_at_def)

lemma far_mm: "char_at (step_mm dt i b) (i + 2) = char_at b (i + 2)"
  by (simp add: step_mm_def char_at_def)

lemma far_ss: "char_at (step_ss dt i b) (i + 2) = char_at b (i + 2)"
  by (simp add: step_ss_def char_at_def)

lemma body_keeps_no_h:
  assumes m: "1 \<le> unat (dt_m dt)" "unat (dt_m dt) \<le> 12"
    and "i < k" "k < length b" "b ! k \<noteq> CHR ''h''" "k = i + 1 \<longrightarrow> char_at b (i + 2) \<noteq> CHR ''D''"
  shows "toString_body pgm dt ap hr pm i b ! k \<noteq> CHR ''h''"
proof -
  note l = step_lengths
  let ?b1 = "step_hh dt ap hr i b"
  let ?b2 = "step_mm dt i ?b1"
  let ?b3 = "step_ss dt i ?b2"
  let ?b4 = "step_D pgm dt i ?b3"
  let ?b5 = "step_M pgm dt i ?b4"
  let ?b6 = "step_Y dt i ?b5"
  have 1: "?b1 ! k \<noteq> CHR ''h''" using assms(3,4,5) by (rule no_h_hh)
  have 2: "?b2 ! k \<noteq> CHR ''h''" using no_h_mm[of i k ?b1 dt] assms(3,4) 1 by simp
  have 3: "?b3 ! k \<noteq> CHR ''h''" using no_h_ss[of i k ?b2 dt] assms(3,4) 2 by simp
  have f: "char_at ?b3 (i + 2) = char_at b (i + 2)" by (simp only: far_hh far_mm far_ss)
  have 4: "?b4 ! k \<noteq> CHR ''h''"
    using no_h_D[of i k ?b3 pgm dt] assms(3,4,6) 3 unfolding f by simp
  have 5: "?b5 ! k \<noteq> CHR ''h''" using no_h_M[OF m, of i k ?b4 pgm] assms(3,4) 4 by simp
  have 6: "?b6 ! k \<noteq> CHR ''h''" using no_h_Y[of i k ?b5 dt] assms(3,4) 5 by simp
  show ?thesis unfolding toString_body_def
    using no_h_AP[of i k ?b6 pm] assms(3,4) 6 by simp
qed

subsection \<open>The scan reaches every \<open>hh\<close> token\<close>

lemma strlen_all: "NUL \<notin> set b \<Longrightarrow> strlen b = length b"
  by (induction b) (auto simp: strlen_def)

lemma loop_at_hh:
  assumes n: "NUL \<notin> set b" and l: "p + 1 < length b"
    and h: "b ! p = CHR ''h''" "b ! (p + 1) = CHR ''h''"
  shows "\<exists>r. toString_loop pgm dt ap hr pm p b = Some r \<and> length r = length b
     \<and> r ! p = digit ((if ap then hr else dt_hh dt) div 10)
     \<and> r ! (p + 1) = digit ((if ap then hr else dt_hh dt) mod 10)"
proof -
  define H where "H = (if ap then hr else dt_hh dt)"
  let ?d1 = "digit (H div 10)" and ?d2 = "digit (H mod 10)"
  let ?b1 = "b[p := ?d1, p + 1 := ?d2]"
  have sl: "strlen b = length b" using n by (rule strlen_all)
  have a: "char_at b p = CHR ''h''" "char_at b (p + 1) = CHR ''h''"
    using l h by (simp_all add: char_at_def)
  have bd: "toString_body pgm dt ap hr pm p b = ?b1" unfolding body_hh[OF a] H_def ..
  have c: "strlen b \<noteq> 0" "p < strlen b - 1" unfolding sl using l by auto
  have 1: "toString_loop pgm dt ap hr pm p b = toString_loop pgm dt ap hr pm (p + 1) ?b1"
    using loop_step[OF c, of pgm dt ap hr pm] bd by simp
  have n1: "NUL \<notin> set ?b1"
    by (intro upd_notin n digit_div10_not_NUL digit_mod10_not(1))
  have sl1: "strlen ?b1 = length b" using strlen_all[OF n1] by simp
  have v: "?b1 ! p = ?d1" "?b1 ! (p + 1) = ?d2" using l by (simp_all add: nth_list_update)
  have "\<exists>r. toString_loop pgm dt ap hr pm (p + 1) ?b1 = Some r \<and> length r = length b
      \<and> r ! p = ?d1 \<and> r ! (p + 1) = ?d2"
  proof (cases "p + 1 < length b - 1")
    case False
    then have c1: "strlen ?b1 \<noteq> 0" "\<not> p + 1 < strlen ?b1 - 1" unfolding sl1 using l by auto
    have "toString_loop pgm dt ap hr pm (p + 1) ?b1 = Some ?b1"
      by (rule loop_stop[OF c1])
    then show ?thesis using v by simp
  next
    case True
    have "char_at ?b1 (p + 1) = ?d2" using l by (simp add: char_at_def)
    then have "\<not> token_start (char_at ?b1 (p + 1))"
      using digit_not_token[OF unat_mod10, of H] by simp
    then have sk: "toString_body pgm dt ap hr pm (p + 1) ?b1 = ?b1" by (rule body_skip)
    have c1: "strlen ?b1 \<noteq> 0" "p + 1 < strlen ?b1 - 1" unfolding sl1 using l True by auto
    have 2: "toString_loop pgm dt ap hr pm (p + 1) ?b1
        = toString_loop pgm dt ap hr pm (p + 2) ?b1"
      using loop_step[OF c1, of pgm dt ap hr pm] sk by simp
    have ne: "?b1 \<noteq> []" using l by auto
    then have "hd ?b1 \<in> set ?b1" by (rule hd_in_set)
    then have hd: "hd ?b1 \<noteq> NUL" using n1 by auto
    from loop_returns[of "p + 2" ?b1 pgm dt ap hr pm, OF _ ne hd]
    obtain r where r: "toString_loop pgm dt ap hr pm (p + 2) ?b1 = Some r"
      "length r = length ?b1" "take (p + 2) r = take (p + 2) ?b1"
      by auto
    have "r ! p = take (p + 2) r ! p" "r ! (p + 1) = take (p + 2) r ! (p + 1)" by simp_all
    then have "r ! p = ?d1" "r ! (p + 1) = ?d2" unfolding r(3) using v by simp_all
    then show ?thesis using 2 r(1,2) by simp
  qed
  then show ?thesis unfolding H_def[symmetric] using 1 by simp
qed

lemma loop_reaches_hh:
  assumes m: "1 \<le> unat (dt_m dt)" "unat (dt_m dt) \<le> 12"
  shows "i \<le> p \<Longrightarrow> NUL \<notin> set b \<Longrightarrow> p + 1 < length b \<Longrightarrow>
     b ! p = CHR ''h'' \<Longrightarrow> b ! (p + 1) = CHR ''h'' \<Longrightarrow>
     \<exists>q. i \<le> q \<and> q \<le> p \<and> even (p - q) \<and> (\<forall>k. q \<le> k \<and> k < p \<longrightarrow> b ! k = CHR ''h'')
          \<and> (q = i \<or> b ! (q - 1) \<noteq> CHR ''h'') \<Longrightarrow>
     \<exists>r. toString_loop pgm dt ap hr pm i b = Some r \<and> length r = length b
       \<and> r ! p = digit ((if ap then hr else dt_hh dt) div 10)
       \<and> r ! (p + 1) = digit ((if ap then hr else dt_hh dt) mod 10)"
proof (induction "p - i" arbitrary: i b)
  case 0
  then have "i = p" by simp
  then show ?case using loop_at_hh[OF "0.prems"(2,3,4,5), of pgm dt ap hr pm] by simp
next
  case (Suc n)
  let ?b' = "toString_body pgm dt ap hr pm i b"
  have ip: "i < p" using Suc.hyps(2) by simp
  note nul = Suc.prems(2) and len = Suc.prems(3) and hp = Suc.prems(4,5)
  obtain q where q: "i \<le> q" "q \<le> p" "even (p - q)"
    "\<forall>k. q \<le> k \<and> k < p \<longrightarrow> b ! k = CHR ''h''" "q = i \<or> b ! (q - 1) \<noteq> CHR ''h''"
    using Suc.prems(6) by blast
  have sl: "strlen b = length b" using nul by (rule strlen_all)
  have c: "strlen b \<noteq> 0" "i < strlen b - 1" unfolding sl using len ip by auto
  have step: "toString_loop pgm dt ap hr pm i b = toString_loop pgm dt ap hr pm (i + 1) ?b'"
    by (rule loop_step[OF c])
  have nul': "NUL \<notin> set ?b'" using m nul by (rule body_NUL)
  have len': "p + 1 < length ?b'" using len by simp
  have hq: "b ! k = CHR ''h''" if "q \<le> k" "k \<le> p + 1" for k
    using that q(4) hp by (cases "k < p"; cases "k = p") (auto simp: le_Suc_eq)
  have "\<exists>q'. i + 1 \<le> q' \<and> q' \<le> p \<and> even (p - q')
      \<and> (\<forall>k. q' \<le> k \<and> k \<le> p + 1 \<longrightarrow> ?b' ! k = CHR ''h'')
      \<and> (q' = i + 1 \<or> ?b' ! (q' - 1) \<noteq> CHR ''h'')"
  proof (cases "q = i")
    case True
    have ev: "even (p - i)" using q(3) True by simp
    have "p - i \<noteq> 1"
    proof
      assume e: "p - i = 1"
      show False using ev unfolding e by simp
    qed
    then have i2: "i + 2 \<le> p" using ip by simp
    have a: "char_at b i = CHR ''h''" "char_at b (i + 1) = CHR ''h''"
      using hq[of i] hq[of "i + 1"] True i2 len by (simp_all add: char_at_def)
    let ?H = "if ap then hr else dt_hh dt"
    have bd: "?b' = b[i := digit (?H div 10), i + 1 := digit (?H mod 10)]"
      by (rule body_hh[OF a])
    have k: "?b' ! k = CHR ''h''" if "i + 2 \<le> k" "k \<le> p + 1" for k
      unfolding bd using that hq[of k] True by simp
    have "?b' ! (i + 1) = digit (?H mod 10)" unfolding bd using len ip by simp
    then have "?b' ! (i + 2 - 1) \<noteq> CHR ''h''" using digit_mod10_not(2)[of ?H] by simp
    moreover have "even (p - (i + 2))" using ev i2 by simp
    ultimately show ?thesis using i2 k by (intro exI[of _ "i + 2"]) simp
  next
    case False
    then have qi: "i < q" and nh: "b ! (q - 1) \<noteq> CHR ''h''" using q(1,5) by simp_all
    have k: "?b' ! k = CHR ''h''" if "q \<le> k" "k \<le> p + 1" for k
    proof (rule body_keeps_h)
      show "i < k" using qi that by simp
      show "k < length b" using that len by simp
      show "b ! k = CHR ''h''" using that by (rule hq)
      show "i + 2 \<le> k \<or> char_at b i \<noteq> CHR ''h''"
      proof (cases "i + 2 \<le> k")
        case True
        then show ?thesis by simp
      next
        case F: False
        then have "q = i + 1" using qi that by simp
        then have "b ! i \<noteq> CHR ''h''" using nh by simp
        then show ?thesis using ip len by (simp add: char_at_def)
      qed
    qed
    have "q = i + 1 \<or> ?b' ! (q - 1) \<noteq> CHR ''h''"
    proof (cases "q = i + 1")
      case True
      then show ?thesis by simp
    next
      case F: False
      then have lt: "i < q - 1" using qi by simp
      have "?b' ! (q - 1) \<noteq> CHR ''h''"
      proof (rule body_keeps_no_h[OF m lt _ nh])
        show "q - 1 < length b" using q(2) len by simp
        show "q - 1 = i + 1 \<longrightarrow> char_at b (i + 2) \<noteq> CHR ''D''"
        proof
          assume "q - 1 = i + 1"
          then have e: "i + 2 = q" using qi by simp
          have "b ! q = CHR ''h''" using hq[of q] q(2) by simp
          then show "char_at b (i + 2) \<noteq> CHR ''D''"
            unfolding e using q(2) len by (simp add: char_at_def)
        qed
      qed
      then show ?thesis by simp
    qed
    then show ?thesis using qi q(2,3) k by (intro exI[of _ q]) simp
  qed
  then obtain q' where q': "i + 1 \<le> q'" "q' \<le> p" "even (p - q')"
    "\<forall>k. q' \<le> k \<and> k \<le> p + 1 \<longrightarrow> ?b' ! k = CHR ''h''"
    "q' = i + 1 \<or> ?b' ! (q' - 1) \<noteq> CHR ''h''"
    by blast
  have hp': "?b' ! p = CHR ''h''" "?b' ! (p + 1) = CHR ''h''" using q'(2,4) by simp_all
  have ex: "\<exists>q. i + 1 \<le> q \<and> q \<le> p \<and> even (p - q)
      \<and> (\<forall>k. q \<le> k \<and> k < p \<longrightarrow> ?b' ! k = CHR ''h'')
      \<and> (q = i + 1 \<or> ?b' ! (q - 1) \<noteq> CHR ''h'')"
    using q' by (intro exI[of _ q']) simp
  have "n = p - (i + 1)" using Suc.hyps(2) by simp
  from Suc.hyps(1)[OF this _ nul' len' hp' ex] ip
  obtain r where "toString_loop pgm dt ap hr pm (i + 1) ?b' = Some r" "length r = length ?b'"
    "r ! p = digit ((if ap then hr else dt_hh dt) div 10)"
    "r ! (p + 1) = digit ((if ap then hr else dt_hh dt) mod 10)"
    by auto
  then show ?case using step by simp
qed

lemma toString_loop_of:
  assumes "NUL \<notin> set buffer"
  shows "\<not> strstr_found buffer ''AP'' \<Longrightarrow> \<not> strstr_found buffer ''ap'' \<Longrightarrow>
           toString pgm dt buffer = toString_loop pgm dt False 0 False 0 buffer"
    and "strstr_found buffer ''AP'' \<or> strstr_found buffer ''ap'' \<Longrightarrow>
           toString pgm dt buffer
             = toString_loop pgm dt True (twelveHour dt) (12 \<le> dt_hh dt) 0 buffer"
proof -
  have "\<forall>c \<in> set buffer. c \<noteq> NUL" using assms by auto
  then have tw: "takeWhile (\<lambda>c. c \<noteq> NUL) buffer = buffer" by (simp add: takeWhile_eq_all_conv)
  show "\<not> strstr_found buffer ''AP'' \<Longrightarrow> \<not> strstr_found buffer ''ap'' \<Longrightarrow>
           toString pgm dt buffer = toString_loop pgm dt False 0 False 0 buffer"
    unfolding toString_def tw by (simp add: Let_def)
  show "strstr_found buffer ''AP'' \<or> strstr_found buffer ''ap'' \<Longrightarrow>
           toString pgm dt buffer
             = toString_loop pgm dt True (twelveHour dt) (12 \<le> dt_hh dt) 0 buffer"
    unfolding toString_def tw Let_def
    by (simp only: hourReformatted_twelveHour if_True split_conv) auto
qed


section \<open>DateTime: validity, epoch and order\<close>

text \<open>
  Claim C1. For every year \<open>y\<close> in 2000..2099, month \<open>m\<close> in 1..12, day \<open>d\<close>
  from 1 to the number of days of month \<open>m\<close> in year \<open>y\<close>, hour below 24,
  minute and second below 60, the DateTime built from these components is valid, and the
  DateTime rebuilt from its \<open>unixtime()\<close> has the same year, month, day, hour,
  minute and second.
\<close>

theorem valid_components_roundtrip:
  fixes y :: "16 word" and m d h mi s :: "8 word"
  assumes "2000 \<le> y" "y \<le> 2099" "1 \<le> m" "m \<le> 12" "1 \<le> d"
    "unat d \<le> days_in_month (unat y) (unat m)" "h < 24" "mi < 60" "s < 60"
  shows "isValid pgm (DateTime_of_components y m d h mi s)
    \<and> year (DateTime_of_unixtime (unixtime pgm (DateTime_of_components y m d h mi s))) = y
    \<and> month (DateTime_of_unixtime (unixtime pgm (DateTime_of_components y m d h mi s))) = m
    \<and> day (DateTime_of_unixtime (unixtime pgm (DateTime_of_components y m d h mi s))) = d
    \<and> hour (DateTime_of_unixtime (unixtime pgm (DateTime_of_components y m d h mi s))) = h
    \<and> minute (DateTime_of_unixtime (unixtime pgm (DateTime_of_components y m d h mi s))) = mi
    \<and> second (DateTime_of_unixtime (unixtime pgm (DateTime_of_components y m d h mi s))) = s"
proof -
  let ?dt = "DateTime_of_components y m d h mi s"
  note c = components_calendar[OF assms]
  have r: "DateTime_of_unixtime (unixtime pgm ?dt) = ?dt" using c(1) by (rule roundtrip)
  have f: "month ?dt = m \<and> day ?dt = d \<and> hour ?dt = h \<and> minute ?dt = mi \<and> second ?dt = s"
    by (simp add: month_def day_def hour_def minute_def second_def DateTime_of_components_def)
  show ?thesis unfolding r using c f by (simp add: isValid_iff)
qed

theorem valid_components_roundtrip_witness:
  "(2000 :: 16 word) \<le> 2024 \<and> (2024 :: 16 word) \<le> 2099 \<and> (1 :: 8 word) \<le> 2 \<and> (2 :: 8 word) \<le> 12
   \<and> (1 :: 8 word) \<le> 29 \<and> unat (29 :: 8 word) \<le> days_in_month (unat (2024 :: 16 word)) (unat (2 :: 8 word))
   \<and> (23 :: 8 word) < 24 \<and> (59 :: 8 word) < 60
   \<and> isValid erased (DateTime_of_components 2024 2 29 23 59 59)
   \<and> day (DateTime_of_unixtime (unixtime erased (DateTime_of_components 2024 2 29 23 59 59))) = 29"
  using valid_components_roundtrip[of 2024 2 29 23 59 59 erased]
  by (simp add: days_in_month_def leap_year_def)

text \<open>
  Claim C2. \<open>DateTime(2000,1,1,0,0,0).unixtime()\<close> is 946684800, its
  \<open>dayOfTheWeek()\<close> is 6, and \<open>DateTime(946684800) == DateTime(2000,1,1,0,0,0)\<close>.
\<close>

theorem epoch_anchor:
  "unixtime pgm (DateTime_of_components 2000 1 1 0 0 0) = 946684800
   \<and> dayOfTheWeek pgm (DateTime_of_components 2000 1 1 0 0 0) = 6
   \<and> op_eq (DateTime_of_unixtime 946684800) (DateTime_of_components 2000 1 1 0 0 0)"
proof -
  have d: "date2days pgm 0 1 1 = 0" by (simp add: date2days_def)
  have "unixtime pgm (DateTime_of_components 2000 1 1 0 0 0) = 946684800"
    by (simp add: unixtime_def DateTime_of_components_def d time2ulong_def
        SECONDS_FROM_1970_TO_2000_def)
  moreover have "dayOfTheWeek pgm (DateTime_of_components 2000 1 1 0 0 0) = 6"
    by (simp add: dayOfTheWeek_def DateTime_of_components_def d)
  moreover have "op_eq (DateTime_of_unixtime 946684800) (DateTime_of_components 2000 1 1 0 0 0)"
    unfolding op_eq_fields epoch_reconstruct by (simp add: DateTime_of_components_def)
  ultimately show ?thesis by simp
qed

text \<open>
  Claim C3. The component constructor stores what it is given and rejects nothing;
  \<open>isValid()\<close> is false for every stored year offset of 100 or more; for every
  other combination of stored fields that is not a real calendar date (a month 0 or
  above 12, a day 0 or beyond the end of the month, an hour above 23, a minute or second
  above 59) the round trip through \<open>unixtime()\<close> changes a field and
  \<open>isValid()\<close> is false, whatever lies behind the month table.
  \<open>DateTime(2000,2,30,0,0,0)\<close> is not valid and \<open>DateTime(2000,2,29,0,0,0)\<close> is.
\<close>

theorem isValid_only_calendar_dates:
  "dt_yOff (DateTime_of_components y mo d h mi s) = ucast (if 2000 \<le> y then y - 2000 else y)
   \<and> dt_m (DateTime_of_components y mo d h mi s) = mo
   \<and> dt_d (DateTime_of_components y mo d h mi s) = d
   \<and> dt_hh (DateTime_of_components y mo d h mi s) = h
   \<and> dt_mm (DateTime_of_components y mo d h mi s) = mi
   \<and> dt_ss (DateTime_of_components y mo d h mi s) = s
   \<and> (100 \<le> dt_yOff dt \<longrightarrow> \<not> isValid pgm dt)
   \<and> (dt_yOff dt < 100 \<and> \<not> calendar_date dt \<longrightarrow>
        DateTime_of_unixtime (unixtime pgm dt) \<noteq> dt \<and> \<not> isValid pgm dt)
   \<and> (\<not> calendar_date dt \<longrightarrow> \<not> isValid pgm dt)
   \<and> \<not> isValid pgm (DateTime_of_components 2000 2 30 0 0 0)
   \<and> isValid pgm (DateTime_of_components 2000 2 29 0 0 0)"
proof -
  have a: "100 \<le> dt_yOff dt \<longrightarrow> \<not> isValid pgm dt" by (simp add: isValid_def)
  have b: "dt_yOff dt < 100 \<and> \<not> calendar_date dt \<longrightarrow>
        DateTime_of_unixtime (unixtime pgm dt) \<noteq> dt \<and> \<not> isValid pgm dt"
  proof (intro impI conjI)
    assume h: "dt_yOff dt < 100 \<and> \<not> calendar_date dt"
    then show "\<not> isValid pgm dt" by (simp add: isValid_iff)
    show "DateTime_of_unixtime (unixtime pgm dt) \<noteq> dt"
    proof
      assume "DateTime_of_unixtime (unixtime pgm dt) = dt"
      moreover have "\<not> 100 \<le> dt_yOff dt" using h by (simp add: not_le)
      ultimately have "isValid pgm dt" by (simp add: isValid_def)
      with h show False by (simp add: isValid_iff)
    qed
  qed
  have c: "\<not> isValid pgm (DateTime_of_components 2000 2 30 0 0 0)"
    unfolding isValid_iff
    by (simp add: calendar_date_def DateTime_of_components_def days_in_month_def leap_year_def)
  have d: "isValid pgm (DateTime_of_components 2000 2 29 0 0 0)"
    unfolding isValid_iff
    by (simp add: calendar_date_def DateTime_of_components_def days_in_month_def leap_year_def)
  show ?thesis using a b c d by (simp add: DateTime_of_components_def isValid_iff)
qed

theorem isValid_only_calendar_dates_witness:
  "dt_yOff (DateTime_of_components 2021 13 1 0 0 0) < 100
   \<and> \<not> calendar_date (DateTime_of_components 2021 13 1 0 0 0)
   \<and> \<not> isValid erased (DateTime_of_components 2021 13 1 0 0 0)
   \<and> 100 \<le> dt_yOff (DateTime_of_components 100 1 1 0 0 0)
   \<and> \<not> isValid erased (DateTime_of_components 100 1 1 0 0 0)"
  using isValid_only_calendar_dates[of _ _ _ _ _ _ "DateTime_of_components 2021 13 1 0 0 0" erased]
    isValid_only_calendar_dates[of _ _ _ _ _ _ "DateTime_of_components 100 1 1 0 0 0" erased]
  by (simp add: DateTime_of_components_def calendar_date_def)

text \<open>
  Claim C4. For valid DateTimes \<open>a\<close> and \<open>b\<close> exactly one of \<open>a < b\<close>,
  \<open>a == b\<close>, \<open>a > b\<close> holds, and the order is the order of the unixtime values:
  \<open>a < b\<close> iff \<open>a.unixtime() < b.unixtime()\<close>, \<open>a == b\<close> iff the unixtime
  values are equal. \<open>a < b\<close> is the lexicographic comparison of year, month, day,
  hour, minute and second, the year first.
\<close>

theorem comparison_total_order:
  assumes "isValid pgm a" "isValid pgm b"
  shows "(op_less a b \<or> op_eq a b \<or> op_greater a b)
    \<and> \<not> (op_less a b \<and> op_eq a b) \<and> \<not> (op_less a b \<and> op_greater a b)
    \<and> \<not> (op_eq a b \<and> op_greater a b)
    \<and> (op_less a b \<longleftrightarrow> unixtime pgm a < unixtime pgm b)
    \<and> (op_eq a b \<longleftrightarrow> unixtime pgm a = unixtime pgm b)
    \<and> (op_greater a b \<longleftrightarrow> unixtime pgm b < unixtime pgm a)
    \<and> (op_less a b \<longleftrightarrow>
          (year a < year b \<or>
           (year a = year b \<and>
            (month a < month b \<or>
             (month a = month b \<and>
              (day a < day b \<or>
               (day a = day b \<and>
                (hour a < hour b \<or>
                 (hour a = hour b \<and>
                  (minute a < minute b \<or>
                   (minute a = minute b \<and> second a < second b)))))))))))"
proof -
  have lex: "op_less a b \<longleftrightarrow>
          (year a < year b \<or>
           (year a = year b \<and>
            (month a < month b \<or>
             (month a = month b \<and>
              (day a < day b \<or>
               (day a = day b \<and>
                (hour a < hour b \<or>
                 (hour a = hour b \<and>
                  (minute a < minute b \<or>
                   (minute a = minute b \<and> second a < second b))))))))))"
    unfolding op_less_def year_def[of a] month_def[of a] day_def[of a] hour_def[of a]
      minute_def[of a] second_def[of a]
    by (simp only: add.commute)
  have ca: "calendar_date a" and cb: "calendar_date b" using assms by (simp_all add: isValid_iff)
  have ua: "unat (unixtime pgm a) = 946684800 + second_number a"
    using ca by (intro unixtime_seconds(2)) (simp_all add: calendar_date_def)
  have ub: "unat (unixtime pgm b) = 946684800 + second_number b"
    using cb by (intro unixtime_seconds(2)) (simp_all add: calendar_date_def)
  note tri = op_trichotomy[of a b]
  have l: "op_less a b \<Longrightarrow> second_number a < second_number b"
    by (rule second_number_mono[OF ca cb])
  have g: "op_greater a b \<Longrightarrow> second_number b < second_number a"
    unfolding op_greater_def by (rule second_number_mono[OF cb ca])
  have e: "op_eq a b \<Longrightarrow> second_number a = second_number b" by (simp add: op_eq_fields)
  have 1: "op_less a b \<longleftrightarrow> second_number a < second_number b" using tri l g e by fastforce
  have 2: "op_eq a b \<longleftrightarrow> second_number a = second_number b" using tri l g e by fastforce
  have 3: "op_greater a b \<longleftrightarrow> second_number b < second_number a" using tri l g e by fastforce
  have "(op_less a b \<or> op_eq a b \<or> op_greater a b)
    \<and> \<not> (op_less a b \<and> op_eq a b) \<and> \<not> (op_less a b \<and> op_greater a b)
    \<and> \<not> (op_eq a b \<and> op_greater a b)
    \<and> (op_less a b \<longleftrightarrow> unixtime pgm a < unixtime pgm b)
    \<and> (op_eq a b \<longleftrightarrow> unixtime pgm a = unixtime pgm b)
    \<and> (op_greater a b \<longleftrightarrow> unixtime pgm b < unixtime pgm a)"
    using tri unfolding word_less_nat_alt word_unat_eq_iff ua ub 1 2 3 by simp
  with lex show ?thesis by blast
qed

theorem comparison_total_order_witness:
  "isValid erased (DateTime_of_components 2020 4 16 18 34 56)
   \<and> isValid erased (DateTime_of_components 2020 12 1 0 0 0)
   \<and> op_less (DateTime_of_components 2020 4 16 18 34 56) (DateTime_of_components 2020 12 1 0 0 0)
   \<and> unixtime erased (DateTime_of_components 2020 4 16 18 34 56)
       < unixtime erased (DateTime_of_components 2020 12 1 0 0 0)"
proof -
  have a: "isValid erased (DateTime_of_components 2020 4 16 18 34 56)"
    unfolding isValid_iff
    by (simp add: calendar_date_def DateTime_of_components_def days_in_month_def leap_year_def)
  have b: "isValid erased (DateTime_of_components 2020 12 1 0 0 0)"
    unfolding isValid_iff
    by (simp add: calendar_date_def DateTime_of_components_def days_in_month_def leap_year_def)
  have l: "op_less (DateTime_of_components 2020 4 16 18 34 56) (DateTime_of_components 2020 12 1 0 0 0)"
    by (simp add: op_less_word DateTime_of_components_def)
  from comparison_total_order[OF a b] a b l show ?thesis by simp
qed

section \<open>DateTime arithmetic\<close>





section \<open>The ISO 8601 constructor\<close>

text \<open>
  Claim C6. The ISO 8601 constructor copies the first \<open>min(19, length)\<close> characters
  of its input over the template \<open>2000-01-01T00:00:00\<close> and reads the fields at
  fixed offsets. The first two characters of the year never count: the year is 2000 plus
  the two-digit field, and two inputs that differ only there give the same DateTime. An
  input shorter than 19 characters is not rejected: every field that lies wholly behind
  its end keeps the value of the template, so \<open>2020-06\<close> gives day 1 and time
  00:00:00.
\<close>

theorem iso8601_fixed_template:
  "DateTime_of_iso8601 s =
     (let n = min 19 (strlen s); ref = take n s @ drop n ''2000-01-01T00:00:00''
      in \<lparr>dt_yOff = conv2d ref 2, dt_m = conv2d ref 5, dt_d = conv2d ref 8,
          dt_hh = conv2d ref 11, dt_mm = conv2d ref 14, dt_ss = conv2d ref 17\<rparr>)
   \<and> year (DateTime_of_iso8601 s) = 2000 + ucast (dt_yOff (DateTime_of_iso8601 s))
   \<and> (a \<noteq> NUL \<and> b \<noteq> NUL \<and> a' \<noteq> NUL \<and> b' \<noteq> NUL
        \<longrightarrow> DateTime_of_iso8601 (a # b # r) = DateTime_of_iso8601 (a' # b' # r))
   \<and> (strlen s \<le> 2 \<longrightarrow> dt_yOff (DateTime_of_iso8601 s) = 0)
   \<and> (strlen s \<le> 5 \<longrightarrow> dt_m (DateTime_of_iso8601 s) = 1)
   \<and> (strlen s \<le> 8 \<longrightarrow> dt_d (DateTime_of_iso8601 s) = 1)
   \<and> (strlen s \<le> 11 \<longrightarrow> dt_hh (DateTime_of_iso8601 s) = 0)
   \<and> (strlen s \<le> 14 \<longrightarrow> dt_mm (DateTime_of_iso8601 s) = 0)
   \<and> (strlen s \<le> 17 \<longrightarrow> dt_ss (DateTime_of_iso8601 s) = 0)
   \<and> DateTime_of_iso8601 ''2020-06''
       = \<lparr>dt_yOff = 20, dt_m = 6, dt_d = 1, dt_hh = 0, dt_mm = 0, dt_ss = 0\<rparr>
   \<and> DateTime_of_iso8601 ''2020-06-25T15:29:37''
       = \<lparr>dt_yOff = 20, dt_m = 6, dt_d = 25, dt_hh = 15, dt_mm = 29, dt_ss = 37\<rparr>"
proof -
  have t: "conv2d ''2000-01-01T00:00:00'' 2 = 0" "conv2d ''2000-01-01T00:00:00'' 5 = 1"
    "conv2d ''2000-01-01T00:00:00'' 8 = 1" "conv2d ''2000-01-01T00:00:00'' 11 = 0"
    "conv2d ''2000-01-01T00:00:00'' 14 = 0" "conv2d ''2000-01-01T00:00:00'' 17 = 0"
    by (simp_all add: conv2d_def)
  have 1: "DateTime_of_iso8601 s =
     (let n = min 19 (strlen s); ref = take n s @ drop n ''2000-01-01T00:00:00''
      in \<lparr>dt_yOff = conv2d ref 2, dt_m = conv2d ref 5, dt_d = conv2d ref 8,
          dt_hh = conv2d ref 11, dt_mm = conv2d ref 14, dt_ss = conv2d ref 17\<rparr>)"
    unfolding DateTime_of_iso8601_def Let_def strlen_template memcpy_def ..
  have 2: "year (DateTime_of_iso8601 s) = 2000 + ucast (dt_yOff (DateTime_of_iso8601 s))"
    by (simp add: year_def)
  have 3: "a \<noteq> NUL \<and> b \<noteq> NUL \<and> a' \<noteq> NUL \<and> b' \<noteq> NUL
        \<longrightarrow> DateTime_of_iso8601 (a # b # r) = DateTime_of_iso8601 (a' # b' # r)"
    using iso_ignores_century[of a b a' b' r] by blast
  have 4: "strlen s \<le> 2 \<longrightarrow> dt_yOff (DateTime_of_iso8601 s) = 0"
    using iso_field_kept[of s 2] by (simp add: DateTime_of_iso8601_def Let_def t)
  have 5: "strlen s \<le> 5 \<longrightarrow> dt_m (DateTime_of_iso8601 s) = 1"
    using iso_field_kept[of s 5] by (simp add: DateTime_of_iso8601_def Let_def t)
  have 6: "strlen s \<le> 8 \<longrightarrow> dt_d (DateTime_of_iso8601 s) = 1"
    using iso_field_kept[of s 8] by (simp add: DateTime_of_iso8601_def Let_def t)
  have 7: "strlen s \<le> 11 \<longrightarrow> dt_hh (DateTime_of_iso8601 s) = 0"
    using iso_field_kept[of s 11] by (simp add: DateTime_of_iso8601_def Let_def t)
  have 8: "strlen s \<le> 14 \<longrightarrow> dt_mm (DateTime_of_iso8601 s) = 0"
    using iso_field_kept[of s 14] by (simp add: DateTime_of_iso8601_def Let_def t)
  have 9: "strlen s \<le> 17 \<longrightarrow> dt_ss (DateTime_of_iso8601 s) = 0"
    using iso_field_kept[of s 17] by (simp add: DateTime_of_iso8601_def Let_def t)
  have 10: "DateTime_of_iso8601 ''2020-06''
       = \<lparr>dt_yOff = 20, dt_m = 6, dt_d = 1, dt_hh = 0, dt_mm = 0, dt_ss = 0\<rparr>"
    by (simp add: DateTime_of_iso8601_def strlen_def NUL_def memcpy_def conv2d_def)
  have 11: "DateTime_of_iso8601 ''2020-06-25T15:29:37''
       = \<lparr>dt_yOff = 20, dt_m = 6, dt_d = 25, dt_hh = 15, dt_mm = 29, dt_ss = 37\<rparr>"
    by (simp add: DateTime_of_iso8601_def strlen_def NUL_def memcpy_def conv2d_def)
  from 1 2 3 4 5 6 7 8 9 10 11 show ?thesis by blast
qed

theorem iso8601_fixed_template_witness:
  "strlen ''2021-1'' \<le> 8
   \<and> dt_d (DateTime_of_iso8601 ''2021-1'') = 1
   \<and> dt_hh (DateTime_of_iso8601 ''2021-1'') = 0
   \<and> CHR ''1'' \<noteq> NUL \<and> CHR ''9'' \<noteq> NUL \<and> CHR ''2'' \<noteq> NUL \<and> CHR ''0'' \<noteq> NUL
   \<and> DateTime_of_iso8601 ''1921-12-24T18:00:00'' = DateTime_of_iso8601 ''2021-12-24T18:00:00''"
proof -
  have h: "strlen ''2021-1'' \<le> 8" "strlen ''2021-1'' \<le> 11"
    by (simp_all add: strlen_def NUL_def)
  have c: "CHR ''1'' \<noteq> NUL" "CHR ''9'' \<noteq> NUL" "CHR ''2'' \<noteq> NUL" "CHR ''0'' \<noteq> NUL"
    by (simp_all add: NUL_def)
  from iso8601_fixed_template[of "''2021-1''" "CHR ''1''" "CHR ''9''" "CHR ''2''" "CHR ''0''"
      "''21-12-24T18:00:00''"] h c
  show ?thesis by blast
qed

section \<open>Formatting\<close>

text \<open>
  Claim C7. With the buffer \<open>YYYY-MM-DD hh:mm:ss\<close>, \<open>toString\<close> of
  \<open>DateTime(2020,4,16,18,34,56)\<close> gives \<open>2020-04-16 18:34:56\<close>. In general, for a
  DateTime with a month from 1 to 12 and a buffer that is a C string (no NUL inside), at
  every position \<open>p\<close> where the buffer has the token \<open>hh\<close>, whatever tokens and other
  characters stand before and behind it, \<open>toString\<close> returns a string of the same
  length that holds at \<open>p\<close> and \<open>p + 1\<close> the two decimal digits of the hour of the
  24-hour clock when neither \<open>AP\<close> nor \<open>ap\<close> occurs anywhere in the buffer, and the
  two digits of \<open>twelveHour()\<close> when one of them occurs, before or behind the token. That
  hour is between 1 and 12 for an hour below 24, and 12 for the hours 0 and 12. When no
  character before \<open>hh\<close> can begin a token, the same holds for every DateTime, whatever
  its month, and the characters before the token stay as they were.
\<close>

theorem toString_hours:
  "toString pgm (DateTime_of_components 2020 4 16 18 34 56) ''YYYY-MM-DD hh:mm:ss''
           = Some ''2020-04-16 18:34:56''
    \<and> (NUL \<notin> set buffer \<and> hh_token buffer p \<and> 1 \<le> dt_m dt \<and> dt_m dt \<le> 12
        \<and> \<not> strstr_found buffer ''AP'' \<and> \<not> strstr_found buffer ''ap''
        \<longrightarrow> (\<exists>r. toString pgm dt buffer = Some r \<and> length r = length buffer
              \<and> r ! p = digit (dt_hh dt div 10) \<and> r ! (p + 1) = digit (dt_hh dt mod 10)))
    \<and> (NUL \<notin> set buffer \<and> hh_token buffer p \<and> 1 \<le> dt_m dt \<and> dt_m dt \<le> 12
        \<and> (strstr_found buffer ''AP'' \<or> strstr_found buffer ''ap'')
        \<longrightarrow> (\<exists>r. toString pgm dt buffer = Some r \<and> length r = length buffer
              \<and> r ! p = digit (twelveHour dt div 10)
              \<and> r ! (p + 1) = digit (twelveHour dt mod 10)))
    \<and> ((\<forall>c \<in> set pre. \<not> token_start c \<and> c \<noteq> NUL) \<and> (\<forall>c \<in> set post. c \<noteq> NUL)
        \<and> \<not> strstr_found (pre @ ''hh'' @ post) ''AP'' \<and> \<not> strstr_found (pre @ ''hh'' @ post) ''ap''
        \<longrightarrow> (\<exists>rest. length rest = length post
              \<and> toString pgm dt (pre @ ''hh'' @ post)
                  = Some (pre @ [digit (dt_hh dt div 10), digit (dt_hh dt mod 10)] @ rest)))
    \<and> ((\<forall>c \<in> set pre. \<not> token_start c \<and> c \<noteq> NUL) \<and> (\<forall>c \<in> set post. c \<noteq> NUL)
        \<and> (strstr_found (pre @ ''hh'' @ post) ''AP'' \<or> strstr_found (pre @ ''hh'' @ post) ''ap'')
        \<longrightarrow> (\<exists>rest. length rest = length post
              \<and> toString pgm dt (pre @ ''hh'' @ post)
                  = Some (pre @ [digit (twelveHour dt div 10), digit (twelveHour dt mod 10)]
                            @ rest)))
    \<and> (dt_hh dt < 24 \<longrightarrow> 1 \<le> twelveHour dt \<and> twelveHour dt \<le> 12)
    \<and> (dt_hh dt = 0 \<or> dt_hh dt = 12 \<longrightarrow> twelveHour dt = 12)"
proof -
  have ex: "toString pgm (DateTime_of_components 2020 4 16 18 34 56) ''YYYY-MM-DD hh:mm:ss''
           = Some ''2020-04-16 18:34:56''"
    by code_simp
  have inv: "\<exists>q. 0 \<le> q \<and> q \<le> p \<and> even (p - q) \<and> (\<forall>k. q \<le> k \<and> k < p \<longrightarrow> buffer ! k = CHR ''h'')
          \<and> (q = 0 \<or> buffer ! (q - 1) \<noteq> CHR ''h'')" if "hh_token buffer p"
    using that unfolding hh_token_def by auto
  have gen: "\<exists>r. toString_loop pgm dt ap hr pm 0 buffer = Some r \<and> length r = length buffer
       \<and> r ! p = digit ((if ap then hr else dt_hh dt) div 10)
       \<and> r ! (p + 1) = digit ((if ap then hr else dt_hh dt) mod 10)"
    if "NUL \<notin> set buffer" "hh_token buffer p" "1 \<le> dt_m dt" "dt_m dt \<le> 12" for ap hr pm
  proof -
    have m: "1 \<le> unat (dt_m dt)" "unat (dt_m dt) \<le> 12"
      using that(3,4) by (simp_all add: word_le_nat_alt)
    have t: "p + 1 < length buffer" "buffer ! p = CHR ''h''" "buffer ! (p + 1) = CHR ''h''"
      using that(2) by (simp_all add: hh_token_def)
    show ?thesis
      by (rule loop_reaches_hh[OF m _ that(1) t inv[OF that(2)]]) simp
  qed
  have a: "NUL \<notin> set buffer \<and> hh_token buffer p \<and> 1 \<le> dt_m dt \<and> dt_m dt \<le> 12
        \<and> \<not> strstr_found buffer ''AP'' \<and> \<not> strstr_found buffer ''ap''
        \<longrightarrow> (\<exists>r. toString pgm dt buffer = Some r \<and> length r = length buffer
              \<and> r ! p = digit (dt_hh dt div 10) \<and> r ! (p + 1) = digit (dt_hh dt mod 10))"
  proof
    assume h: "NUL \<notin> set buffer \<and> hh_token buffer p \<and> 1 \<le> dt_m dt \<and> dt_m dt \<le> 12
        \<and> \<not> strstr_found buffer ''AP'' \<and> \<not> strstr_found buffer ''ap''"
    then have "toString pgm dt buffer = toString_loop pgm dt False 0 False 0 buffer"
      by (intro toString_loop_of(1)) simp_all
    then show "\<exists>r. toString pgm dt buffer = Some r \<and> length r = length buffer
              \<and> r ! p = digit (dt_hh dt div 10) \<and> r ! (p + 1) = digit (dt_hh dt mod 10)"
      using gen[of False 0 False] h by simp
  qed
  have b: "NUL \<notin> set buffer \<and> hh_token buffer p \<and> 1 \<le> dt_m dt \<and> dt_m dt \<le> 12
        \<and> (strstr_found buffer ''AP'' \<or> strstr_found buffer ''ap'')
        \<longrightarrow> (\<exists>r. toString pgm dt buffer = Some r \<and> length r = length buffer
              \<and> r ! p = digit (twelveHour dt div 10)
              \<and> r ! (p + 1) = digit (twelveHour dt mod 10))"
  proof
    assume h: "NUL \<notin> set buffer \<and> hh_token buffer p \<and> 1 \<le> dt_m dt \<and> dt_m dt \<le> 12
        \<and> (strstr_found buffer ''AP'' \<or> strstr_found buffer ''ap'')"
    then have "toString pgm dt buffer
        = toString_loop pgm dt True (twelveHour dt) (12 \<le> dt_hh dt) 0 buffer"
      by (intro toString_loop_of(2)) simp_all
    then show "\<exists>r. toString pgm dt buffer = Some r \<and> length r = length buffer
              \<and> r ! p = digit (twelveHour dt div 10)
              \<and> r ! (p + 1) = digit (twelveHour dt mod 10)"
      using gen[of True "twelveHour dt" "12 \<le> dt_hh dt"] h by simp
  qed
  let ?b = "pre @ ''hh'' @ post"
  have nb: "NUL \<notin> set ?b"
    if "\<forall>c \<in> set pre. \<not> token_start c \<and> c \<noteq> NUL" "\<forall>c \<in> set post. c \<noteq> NUL"
    using that by (auto simp: NUL_def)
  have c: "(\<forall>c \<in> set pre. \<not> token_start c \<and> c \<noteq> NUL) \<and> (\<forall>c \<in> set post. c \<noteq> NUL)
        \<and> \<not> strstr_found ?b ''AP'' \<and> \<not> strstr_found ?b ''ap''
        \<longrightarrow> (\<exists>rest. length rest = length post
              \<and> toString pgm dt ?b
                  = Some (pre @ [digit (dt_hh dt div 10), digit (dt_hh dt mod 10)] @ rest))"
  proof
    assume h: "(\<forall>c \<in> set pre. \<not> token_start c \<and> c \<noteq> NUL) \<and> (\<forall>c \<in> set post. c \<noteq> NUL)
        \<and> \<not> strstr_found ?b ''AP'' \<and> \<not> strstr_found ?b ''ap''"
    then have p: "\<forall>c \<in> set pre. \<not> token_start c \<and> c \<noteq> NUL" by blast
    have "toString pgm dt ?b = toString_loop pgm dt False 0 False 0 ?b"
      using h by (intro toString_loop_of(1) nb) blast+
    then show "\<exists>rest. length rest = length post
              \<and> toString pgm dt ?b
                  = Some (pre @ [digit (dt_hh dt div 10), digit (dt_hh dt mod 10)] @ rest)"
      using loop_hh[OF p, of post pgm dt False 0 False] by simp
  qed
  have d: "(\<forall>c \<in> set pre. \<not> token_start c \<and> c \<noteq> NUL) \<and> (\<forall>c \<in> set post. c \<noteq> NUL)
        \<and> (strstr_found ?b ''AP'' \<or> strstr_found ?b ''ap'')
        \<longrightarrow> (\<exists>rest. length rest = length post
              \<and> toString pgm dt ?b
                  = Some (pre @ [digit (twelveHour dt div 10), digit (twelveHour dt mod 10)]
                            @ rest))"
  proof
    assume h: "(\<forall>c \<in> set pre. \<not> token_start c \<and> c \<noteq> NUL) \<and> (\<forall>c \<in> set post. c \<noteq> NUL)
        \<and> (strstr_found ?b ''AP'' \<or> strstr_found ?b ''ap'')"
    then have p: "\<forall>c \<in> set pre. \<not> token_start c \<and> c \<noteq> NUL" by blast
    have "toString pgm dt ?b
        = toString_loop pgm dt True (twelveHour dt) (12 \<le> dt_hh dt) 0 ?b"
      using h by (intro toString_loop_of(2) nb) blast+
    then show "\<exists>rest. length rest = length post
              \<and> toString pgm dt ?b
                  = Some (pre @ [digit (twelveHour dt div 10), digit (twelveHour dt mod 10)]
                            @ rest)"
      using loop_hh[OF p, of post pgm dt True "twelveHour dt" "12 \<le> dt_hh dt"] by simp
  qed
  have e: "dt_hh dt = 0 \<or> dt_hh dt = 12 \<longrightarrow> twelveHour dt = 12" by (simp add: twelveHour_def)
  have f: "dt_hh dt < 24 \<longrightarrow> 1 \<le> twelveHour dt \<and> twelveHour dt \<le> 12"
    using twelveHour_range[of dt] by blast
  show ?thesis
    by (intro conjI) (rule ex, rule a, rule b, rule c, rule d, rule f, rule e)
qed

theorem toString_hours_witness:
  "strstr_found ''AP hh:mm'' ''AP''
   \<and> dt_hh (DateTime_of_components 2020 4 16 18 34 56) < 24
   \<and> twelveHour (DateTime_of_components 2020 4 16 18 34 56) \<le> 12
   \<and> (\<exists>r. toString erased (DateTime_of_components 2020 4 16 18 34 56) ''AP hh:mm'' = Some r
        \<and> length r = length ''AP hh:mm''
        \<and> r ! 3 = digit (twelveHour (DateTime_of_components 2020 4 16 18 34 56) div 10)
        \<and> r ! (3 + 1) = digit (twelveHour (DateTime_of_components 2020 4 16 18 34 56) mod 10))
   \<and> (\<exists>r. toString erased (DateTime_of_components 2020 4 16 18 34 56) ''YYYY-MM-DD hh:mm:ss''
              = Some r
        \<and> length r = length ''YYYY-MM-DD hh:mm:ss''
        \<and> r ! 11 = digit (dt_hh (DateTime_of_components 2020 4 16 18 34 56) div 10)
        \<and> r ! (11 + 1) = digit (dt_hh (DateTime_of_components 2020 4 16 18 34 56) mod 10))
   \<and> toString erased (DateTime_of_components 2020 4 16 18 34 56) ''AP hh:mm''
       = Some ''PM 06:34''"
proof -
  let ?dt = "DateTime_of_components 2020 4 16 18 34 56"
  have n: "NUL \<notin> set ''AP hh:mm''" "NUL \<notin> set ''YYYY-MM-DD hh:mm:ss''"
    by (simp_all add: NUL_def)
  have t1: "hh_token ''AP hh:mm'' 3"
    unfolding hh_token_def by (intro conjI bexI[of _ 3]) simp_all
  have t2: "hh_token ''YYYY-MM-DD hh:mm:ss'' 11"
    unfolding hh_token_def by (intro conjI bexI[of _ 11]) simp_all
  have m: "1 \<le> dt_m ?dt" "dt_m ?dt \<le> 12" by (simp_all add: DateTime_of_components_def)
  have s: "strstr_found ''AP hh:mm'' ''AP''" by simp
  have s': "\<not> strstr_found ''YYYY-MM-DD hh:mm:ss'' ''AP''"
    "\<not> strstr_found ''YYYY-MM-DD hh:mm:ss'' ''ap''"
    by simp_all
  have h: "dt_hh ?dt < 24" by (simp add: DateTime_of_components_def)
  have v: "toString erased ?dt ''AP hh:mm'' = Some ''PM 06:34''" by code_simp
  from toString_hours[of erased "''AP hh:mm''" 3 ?dt]
    toString_hours[of erased "''YYYY-MM-DD hh:mm:ss''" 11 ?dt]
    n t1 t2 m s s' h v
  show ?thesis by blast
qed

text \<open>
  Claim C8 says that \<open>toString\<close> changes no character outside the tokens of the
  format. On the buffer \<open>APM\<close>, whose only token is \<open>AP\<close>, the code first
  writes \<open>AM\<close> and in the next round reads the \<open>M\<close> it has just written
  together with the \<open>M\<close> behind it as the token \<open>MM\<close>: for 2000-01-01
  00:00:00 the result is \<open>A01\<close> where the format asks for \<open>AMM\<close>.
\<close>

theorem toString_rescans_its_output:
  "toString pgm (DateTime_of_components 2000 1 1 0 0 0) ''APM'' = Some ''A01''"
  by code_simp

section \<open>TimeSpan: construction and decomposition\<close>

text \<open>
  Claim C9. \<open>TimeSpan(1,2,3,4).totalseconds()\<close> is \<open>1*86400 + 2*3600 + 3*60 + 4\<close>,
  that is 93784, and \<open>TimeSpan(90061)\<close> has days, hours, minutes and seconds all equal
  to 1. In general the four-argument constructor stores
  \<open>days*86400 + hours*3600 + minutes*60 + seconds\<close> whenever that sum is an
  \<open>int32_t\<close>, and the accessors return the place-value digits of the total under
  truncating division: \<open>total/86400\<close>, \<open>total/3600 % 24\<close>, \<open>total/60 % 60\<close> and
  \<open>total % 60\<close>; the cuts to \<open>int16_t\<close> and \<open>int8_t\<close> lose nothing.
\<close>

theorem timespan_components:
  fixes d :: "16 word" and h m s :: "8 word" and t :: "32 word"
  shows "sint (totalseconds (TimeSpan_of_dhms 1 2 3 4)) = 1 * 86400 + 2 * 3600 + 3 * 60 + 4
    \<and> sint (totalseconds (TimeSpan_of_dhms 1 2 3 4)) = 93784
    \<and> days (TimeSpan_of_seconds 90061) = 1 \<and> hours (TimeSpan_of_seconds 90061) = 1
    \<and> minutes (TimeSpan_of_seconds 90061) = 1 \<and> seconds (TimeSpan_of_seconds 90061) = 1
    \<and> (- 2147483648 \<le> sint d * 86400 + sint h * 3600 + sint m * 60 + sint s
        \<and> sint d * 86400 + sint h * 3600 + sint m * 60 + sint s < 2147483648
       \<longrightarrow> sint (totalseconds (TimeSpan_of_dhms d h m s))
             = sint d * 86400 + sint h * 3600 + sint m * 60 + sint s)
    \<and> sint (days (TimeSpan_of_seconds t)) = sint (totalseconds (TimeSpan_of_seconds t)) sdiv 86400
    \<and> sint (hours (TimeSpan_of_seconds t))
        = sint (totalseconds (TimeSpan_of_seconds t)) sdiv 3600 smod 24
    \<and> sint (minutes (TimeSpan_of_seconds t))
        = sint (totalseconds (TimeSpan_of_seconds t)) sdiv 60 smod 60
    \<and> sint (seconds (TimeSpan_of_seconds t))
        = sint (totalseconds (TimeSpan_of_seconds t)) smod 60"
proof -
  have ex1: "sint (totalseconds (TimeSpan_of_dhms 1 2 3 4)) = 93784"
    by (simp add: TimeSpan_of_dhms_def totalseconds_def)
  have ex2: "days (TimeSpan_of_seconds 90061) = 1 \<and> hours (TimeSpan_of_seconds 90061) = 1
      \<and> minutes (TimeSpan_of_seconds 90061) = 1 \<and> seconds (TimeSpan_of_seconds 90061) = 1"
    by (simp add: TimeSpan_of_seconds_def days_def hours_def minutes_def seconds_def
        signed_divide_int_def signed_modulo_int_def)
  have acc: "sint (days (TimeSpan_of_seconds t))
                = sint (totalseconds (TimeSpan_of_seconds t)) sdiv 86400
      \<and> sint (hours (TimeSpan_of_seconds t))
                = sint (totalseconds (TimeSpan_of_seconds t)) sdiv 3600 smod 24
      \<and> sint (minutes (TimeSpan_of_seconds t))
                = sint (totalseconds (TimeSpan_of_seconds t)) sdiv 60 smod 60
      \<and> sint (seconds (TimeSpan_of_seconds t))
                = sint (totalseconds (TimeSpan_of_seconds t)) smod 60"
    by (simp add: sint_days sint_hours sint_minutes sint_seconds totalseconds_def)
  from ex1 ex2 acc dhms_total[of d h m s] show ?thesis by simp
qed

theorem timespan_components_witness:
  "- 2147483648 \<le> sint (2 :: 16 word) * 86400 + sint (3 :: 8 word) * 3600
                     + sint (4 :: 8 word) * 60 + sint (5 :: 8 word)
   \<and> sint (2 :: 16 word) * 86400 + sint (3 :: 8 word) * 3600
       + sint (4 :: 8 word) * 60 + sint (5 :: 8 word) < 2147483648
   \<and> sint (totalseconds (TimeSpan_of_dhms 2 3 4 5)) = 183845
   \<and> sint (days (TimeSpan_of_seconds (- 90061))) = - 1"
  using timespan_components[of 2 3 4 5 "- 90061"]
  by (simp add: totalseconds_def TimeSpan_of_seconds_def signed_divide_int_def)

text \<open>
  Claim C10. For every 32-bit total \<open>t\<close>, negative ones included, the accessors of the
  TimeSpan holding \<open>t\<close> recompose to it:
  \<open>days()*86400 + hours()*3600 + minutes()*60 + seconds() = t\<close>; and when \<open>t\<close> is
  negative, none of the four components is positive.
\<close>

theorem timespan_recomposition:
  "sint (days (TimeSpan_of_seconds t)) * 86400 + sint (hours (TimeSpan_of_seconds t)) * 3600
     + sint (minutes (TimeSpan_of_seconds t)) * 60 + sint (seconds (TimeSpan_of_seconds t))
     = sint (totalseconds (TimeSpan_of_seconds t))
   \<and> sint (totalseconds (TimeSpan_of_seconds t)) = sint t
   \<and> (sint t < 0 \<longrightarrow>
        sint (days (TimeSpan_of_seconds t)) \<le> 0 \<and> sint (hours (TimeSpan_of_seconds t)) \<le> 0
      \<and> sint (minutes (TimeSpan_of_seconds t)) \<le> 0 \<and> sint (seconds (TimeSpan_of_seconds t)) \<le> 0)"
  by (simp add: sint_days sint_hours sint_minutes sint_seconds totalseconds_def
      TimeSpan_of_seconds_def recompose_int sdiv_nonpos smod_nonpos)

theorem timespan_recomposition_witness:
  "sint (- 90061 :: 32 word) < 0
   \<and> sint (days (TimeSpan_of_seconds (- 90061))) * 86400
       + sint (hours (TimeSpan_of_seconds (- 90061))) * 3600
       + sint (minutes (TimeSpan_of_seconds (- 90061))) * 60
       + sint (seconds (TimeSpan_of_seconds (- 90061))) = - 90061
   \<and> sint (days (TimeSpan_of_seconds (- 90061))) \<le> 0
   \<and> sint (hours (TimeSpan_of_seconds (- 90061))) \<le> 0
   \<and> sint (minutes (TimeSpan_of_seconds (- 90061))) \<le> 0
   \<and> sint (seconds (TimeSpan_of_seconds (- 90061))) \<le> 0"
  using timespan_recomposition[of "- 90061"] by simp

end
